theory Spec2Isabelle
  imports Main "HOL-Library.AList"
begin

section \<open>Python strings\<close>

text \<open>
  A Python \<open>str\<close> is modelled as a \<open>string\<close>, each \<open>char\<close> standing for one code
  point below 256. The character classes below are Python's, restricted to that range:
  \<open>str.strip()\<close>, \<open>str.split()\<close> and the pattern \<open>\s\<close> use the same whitespace class,
  and the pattern \<open>\d\<close> matches the decimal digits only.
\<close>

definition is_space :: "char \<Rightarrow> bool" where
  "is_space c = (c \<in> set [CHR 0x09, CHR 0x0A, CHR 0x0B, CHR 0x0C, CHR 0x0D,
     CHR 0x1C, CHR 0x1D, CHR 0x1E, CHR 0x1F, CHR 0x20, CHR 0x85, CHR 0xA0])"

definition is_digit :: "char \<Rightarrow> bool" where
  "is_digit c = (c \<in> set ''0123456789'')"

definition lstrip :: "string \<Rightarrow> string" where
  "lstrip s = dropWhile is_space s"

definition rstrip :: "string \<Rightarrow> string" where
  "rstrip s = rev (dropWhile is_space (rev s))"

definition strip :: "string \<Rightarrow> string" where
  "strip s = rstrip (lstrip s)"

text \<open>\<open>s.lstrip(chars)\<close> and \<open>s.strip(chars)\<close> with an explicit character set.\<close>

definition lstrip_chars :: "string \<Rightarrow> string \<Rightarrow> string" where
  "lstrip_chars cs s = dropWhile (\<lambda>c. c \<in> set cs) s"

definition strip_chars :: "string \<Rightarrow> string \<Rightarrow> string" where
  "strip_chars cs s = rev (dropWhile (\<lambda>c. c \<in> set cs) (rev (dropWhile (\<lambda>c. c \<in> set cs) s)))"

text \<open>
  \<open>s.split(sep)\<close> for a one-character separator: empty pieces are kept. A character
  other than the separator joins the first piece of the rest (the rest always has one).
\<close>

fun split_on :: "char \<Rightarrow> string \<Rightarrow> string list" where
  "split_on sep [] = [[]]"
| "split_on sep (c # cs) =
     (if c = sep then [] # split_on sep cs
      else (case split_on sep cs of [] \<Rightarrow> [[c]] | w # ws \<Rightarrow> (c # w) # ws))"

text \<open>\<open>sep.join(ws)\<close>.\<close>

fun join :: "string \<Rightarrow> string list \<Rightarrow> string" where
  "join sep [] = []"
| "join sep [w] = w"
| "join sep (w # v # ws) = w @ sep @ join sep (v # ws)"

text \<open>\<open>s.split()\<close>: the maximal runs of non-whitespace characters.\<close>

function split_ws :: "string \<Rightarrow> string list" where
  "split_ws [] = []"
| "split_ws (c # cs) =
     (if is_space c then split_ws cs
      else (c # takeWhile (\<lambda>x. \<not> is_space x) cs) # split_ws (dropWhile (\<lambda>x. \<not> is_space x) cs))"
  by pat_completeness auto
termination
  by (relation "measure length") (auto simp: le_imp_less_Suc length_dropWhile_le)

text \<open>\<open>str(n)\<close> for a natural number: its decimal digits, no leading zero.\<close>

definition digit_char :: "nat \<Rightarrow> char" where
  "digit_char d = ''0123456789'' ! d"

function str_nat :: "nat \<Rightarrow> string" where
  "str_nat n = (if n < 10 then [digit_char n] else str_nat (n div 10) @ [digit_char (n mod 10)])"
  by pat_completeness auto
termination
  by (relation "measure id") auto

declare str_nat.simps [simp del]

text \<open>The value of a string of decimal digits, as \<open>int\<close> reads it.\<close>

definition digit_value :: "char \<Rightarrow> nat" where
  "digit_value c = length (takeWhile (\<lambda>d. d \<noteq> c) ''0123456789'')"

definition nat_of_digits :: "string \<Rightarrow> nat" where
  "nat_of_digits s = foldl (\<lambda>n c. 10 * n + digit_value c) 0 s"

section \<open>The renumbering engine (renumber\_affiliations.py)\<close>

text \<open>
  An author row is the dictionary with the keys \<open>last\<close>, \<open>first\<close> and \<open>affils\<close> that
  \<open>read_inputs\<close> builds (the field \<open>last'\<close> is the key \<open>last\<close>; the plain name is the
  list function). A Python \<open>dict\<close> keeps its keys in insertion order, so it is an
  association list with distinct keys: \<open>map_of\<close> looks a key up and \<open>AList.update\<close>
  stores a value (in place for a key already there, at the end for a new one).
\<close>

record author =
  last' :: string
  first :: string
  affils :: string

type_synonym affiliations_map = "(string \<times> string) list"

text \<open>
  The variables of \<open>renumber_affiliations\<close>, and \<open>printed\<close> for the lines it prints.
\<close>

record renumber_state =
  old_to_new_id_map :: "(string \<times> string) list"
  new_affiliations_list :: "(string \<times> string) list"
  current_new_id :: nat
  updated_names_data :: "author list"
  printed :: "string list"

definition initial_state :: renumber_state where
  "initial_state = \<lparr>old_to_new_id_map = [], new_affiliations_list = [], current_new_id = 1,
     updated_names_data = [], printed = []\<rparr>"

text \<open>\<open>[x.strip() for x in original_ids_str.split(',') if x.strip()]\<close>\<close>

definition original_ids :: "string \<Rightarrow> string list" where
  "original_ids original_ids_str =
     map strip (filter (\<lambda>x. strip x \<noteq> []) (split_on CHR '','' original_ids_str))"

definition warning :: "author \<Rightarrow> string \<Rightarrow> string" where
  "warning a oid = ''Warning: Author '' @ last' a @ '' references affiliation ID '' @ [CHR 0x27]
     @ oid @ [CHR 0x27] @ '', which is not in the affiliations file. Keeping original ID.''"

text \<open>
  One round of the loop over an author's ids. The state is paired with
  \<open>new_ids_for_this_author\<close>. Both subscripts of the source read a key that is
  there (\<open>affiliations_map[oid]\<close> under \<open>oid in affiliations_map\<close>, and
  \<open>old_to_new_id_map[oid]\<close> after the entry was found or stored), so no \<open>KeyError\<close>
  can be raised and the lookups are folded into the case distinctions.
\<close>

definition process_id ::
  "affiliations_map \<Rightarrow> author \<Rightarrow> string \<Rightarrow> renumber_state \<times> string list
     \<Rightarrow> renumber_state \<times> string list" where
  "process_id affiliations_map a oid sn =
     (let st = fst sn; new_ids_for_this_author = snd sn in
      case map_of (old_to_new_id_map st) oid of
        Some seen \<Rightarrow> (st, new_ids_for_this_author @ [seen])
      | None \<Rightarrow>
         (case map_of affiliations_map oid of
            None \<Rightarrow>
              (st\<lparr>printed := printed st @ [warning a oid],
                  old_to_new_id_map := AList.update oid oid (old_to_new_id_map st)\<rparr>,
               new_ids_for_this_author @ [oid])
          | Some text \<Rightarrow>
              (let new_id = str_nat (current_new_id st) in
               (st\<lparr>old_to_new_id_map := AList.update oid new_id (old_to_new_id_map st),
                   new_affiliations_list := new_affiliations_list st @ [(new_id, text)],
                   current_new_id := current_new_id st + 1\<rparr>,
                new_ids_for_this_author @ [new_id]))))"

fun process_ids ::
  "affiliations_map \<Rightarrow> author \<Rightarrow> string list \<Rightarrow> renumber_state \<times> string list
     \<Rightarrow> renumber_state \<times> string list" where
  "process_ids affiliations_map a [] sn = sn"
| "process_ids affiliations_map a (oid # oids) sn =
     process_ids affiliations_map a oids (process_id affiliations_map a oid sn)"

definition process_author :: "affiliations_map \<Rightarrow> author \<Rightarrow> renumber_state \<Rightarrow> renumber_state" where
  "process_author affiliations_map a st =
     (if strip (affils a) = [] then st\<lparr>updated_names_data := updated_names_data st @ [a]\<rparr>
      else
        (let sn = process_ids affiliations_map a (original_ids (affils a)) (st, []);
             updated_author = a\<lparr>affils := join '','' (snd sn)\<rparr>
         in (fst sn)\<lparr>updated_names_data := updated_names_data (fst sn) @ [updated_author]\<rparr>))"

fun process_authors :: "affiliations_map \<Rightarrow> author list \<Rightarrow> renumber_state \<Rightarrow> renumber_state" where
  "process_authors affiliations_map [] st = st"
| "process_authors affiliations_map (a # names_data) st =
     process_authors affiliations_map names_data (process_author affiliations_map a st)"

text \<open>The final loop, over \<open>affiliations_map.items()\<close> in the dictionary's order.\<close>

fun process_orphans :: "(string \<times> string) list \<Rightarrow> renumber_state \<Rightarrow> renumber_state" where
  "process_orphans [] st = st"
| "process_orphans ((oid, text) # items) st =
     (case map_of (old_to_new_id_map st) oid of
        Some seen \<Rightarrow> process_orphans items st
      | None \<Rightarrow>
          (let new_id = str_nat (current_new_id st) in
           process_orphans items
             (st\<lparr>old_to_new_id_map := AList.update oid new_id (old_to_new_id_map st),
                 new_affiliations_list := new_affiliations_list st @ [(new_id, text)],
                 current_new_id := current_new_id st + 1\<rparr>)))"

text \<open>
  The state in which \<open>renumber_affiliations\<close> returns (it holds the RemapTable and the
  printed warnings), and the pair the function returns.
\<close>

definition renumber_run :: "author list \<Rightarrow> affiliations_map \<Rightarrow> renumber_state" where
  "renumber_run names_data affiliations_map =
     process_orphans affiliations_map (process_authors affiliations_map names_data initial_state)"

definition renumber_affiliations ::
  "author list \<Rightarrow> affiliations_map \<Rightarrow> (string \<times> string) list \<times> author list" where
  "renumber_affiliations names_data affiliations_map =
     (let st = renumber_run names_data affiliations_map
      in (new_affiliations_list st, updated_names_data st))"

section \<open>The text segmenter and the parsers (author\_doc\_to\_csv.py)\<close>

definition newline :: char where
  "newline = CHR 0x0A"

text \<open>\<open>str.lower()\<close> on the code points below 256.\<close>

definition lower_char :: "char \<Rightarrow> char" where
  "lower_char c =
     (let n = (of_char c :: nat) in
      if (65 \<le> n \<and> n \<le> 90) \<or> (192 \<le> n \<and> n \<le> 214) \<or> (216 \<le> n \<and> n \<le> 222)
      then char_of (n + 32) else c)"

definition lower :: "string \<Rightarrow> string" where
  "lower s = map lower_char s"

text \<open>
  The variables of the loop of \<open>parse_data\<close>; \<open>segment_lines\<close> is the loop on the lines,
  from the initial values, and \<open>parse_data\<close> splits the text and joins the two blocks.
\<close>

record segmenter_state =
  author_lines :: "string list"
  affiliation_lines :: "string list"
  found_split :: bool
  title_skipped :: bool

fun parse_data_loop :: "string list \<Rightarrow> segmenter_state \<Rightarrow> segmenter_state" where
  "parse_data_loop [] st = st"
| "parse_data_loop (line # lines) st =
     (let clean_line = strip line in
      if clean_line = [] then parse_data_loop lines st
      else if lower clean_line = ''affiliations'' then
        parse_data_loop lines (st\<lparr>found_split := True\<rparr>)
      else if \<not> found_split st then
        (if \<not> title_skipped st then parse_data_loop lines (st\<lparr>title_skipped := True\<rparr>)
         else parse_data_loop lines (st\<lparr>author_lines := author_lines st @ [clean_line]\<rparr>))
      else parse_data_loop lines (st\<lparr>affiliation_lines := affiliation_lines st @ [clean_line]\<rparr>))"

definition segment_lines :: "string list \<Rightarrow> string list \<times> string list" where
  "segment_lines lines =
     (let st = parse_data_loop lines
         \<lparr>author_lines = [], affiliation_lines = [], found_split = False, title_skipped = False\<rparr>
      in (author_lines st, affiliation_lines st))"

definition parse_data :: "string \<Rightarrow> string \<times> string" where
  "parse_data full_text =
     (let r = segment_lines (split_on newline full_text)
      in (join [newline] (fst r), join [newline] (snd r)))"

text \<open>
  \<open>re.match(r'^(\d+)\s*(.*)', line)\<close>: the digits at the start of the line (at least
  one), then whitespace, then the rest up to the end of the line.
\<close>

definition match_affiliation :: "string \<Rightarrow> (string \<times> string) option" where
  "match_affiliation line =
     (if takeWhile is_digit line = [] then None
      else Some (takeWhile is_digit line,
        takeWhile (\<lambda>c. c \<noteq> newline) (dropWhile is_space (dropWhile is_digit line))))"

fun parse_affiliations_loop :: "string list \<Rightarrow> (string \<times> string) list \<Rightarrow> (string \<times> string) list" where
  "parse_affiliations_loop [] affiliations = affiliations"
| "parse_affiliations_loop (line # lines) affiliations =
     (case match_affiliation (strip line) of
        None \<Rightarrow> parse_affiliations_loop lines affiliations
      | Some (aff_id, aff_text) \<Rightarrow>
          parse_affiliations_loop lines (AList.update aff_id aff_text affiliations))"

definition parse_affiliations_to_dict :: "string \<Rightarrow> (string \<times> string) list" where
  "parse_affiliations_to_dict text = parse_affiliations_loop (split_on newline (strip text)) []"

text \<open>
  \<open>pattern.finditer(clean_text)\<close> for \<open>([^\d]+?)(\d[\d,]*)\<close>: a match cannot start at a
  digit; from a non-digit, the lazy first group runs to the next digit (and there is no
  match when the text ends first), and the second group takes the digits and commas that
  follow. The search goes on where the match ended.
\<close>

definition is_id_char :: "char \<Rightarrow> bool" where
  "is_id_char c = (is_digit c \<or> c = CHR '','')"

function finditer_authors :: "string \<Rightarrow> (string \<times> string) list" where
  "finditer_authors s =
     (let s1 = dropWhile is_digit s;
          r = dropWhile (\<lambda>c. \<not> is_digit c) s1
      in if r = [] then []
         else (takeWhile (\<lambda>c. \<not> is_digit c) s1, takeWhile is_id_char r)
                # finditer_authors (dropWhile is_id_char r))"
  by pat_completeness auto
termination
proof (relation "measure length", goal_cases)
  case 1
  show ?case by simp
next
  case (2 s s1 r)
  note s1 = \<open>s1 = dropWhile is_digit s\<close>
    and r = \<open>r = dropWhile (\<lambda>c. \<not> is_digit c) s1\<close> and ne = \<open>r \<noteq> []\<close>
  from ne obtain c cs where rc: "r = c # cs"
    by (cases r) blast+
  have "\<not> \<not> is_digit (hd r)"
    using ne unfolding r by (rule hd_dropWhile)
  then have "is_id_char c"
    by (simp add: rc is_id_char_def)
  then have "dropWhile is_id_char r = dropWhile is_id_char cs"
    by (simp add: rc)
  then have "length (dropWhile is_id_char r) < length r"
    using length_dropWhile_le [of is_id_char cs] by (simp add: rc)
  also have "length r \<le> length s1"
    unfolding r by (rule length_dropWhile_le)
  also have "length s1 \<le> length s"
    unfolding s1 by (rule length_dropWhile_le)
  finally show ?case by simp
qed

declare finditer_authors.simps [simp del]

text \<open>
  The loop over the matches. \<open>name_tokens[-1]\<close> and \<open>name_tokens[:-1]\<close> are read only
  when there are at least two tokens.
\<close>

record parsed_author =
  first_middle :: string
  last_name :: string
  affiliations :: string

fun authors_loop :: "(string \<times> string) list \<Rightarrow> parsed_author list" where
  "authors_loop [] = []"
| "authors_loop ((group1, group2) # matches) =
     (let name_part = lstrip_chars '', '' (strip group1);
          affils_part = strip group2
      in if name_part = [] then authors_loop matches
         else
           (let name_tokens = split_ws name_part;
                affils_part = strip_chars '','' affils_part
            in (if length name_tokens > 1
                then \<lparr>first_middle = join '' '' (butlast name_tokens),
                      last_name = last name_tokens, affiliations = affils_part\<rparr>
                else \<lparr>first_middle = [], last_name = name_part, affiliations = affils_part\<rparr>)
               # authors_loop matches))"

definition parse_authors_to_list :: "string \<Rightarrow> parsed_author list" where
  "parse_authors_to_list text =
     authors_loop (finditer_authors
       (strip (map (\<lambda>c. if c = newline then CHR '' '' else c) text)))"

section \<open>The order of the affiliation paragraphs (csv\_to\_author\_doc.py)\<close>

text \<open>
  \<open>sorted(affiliations.keys(), key=lambda x: int(x) if x.isdigit() else x)\<close>. A key of the
  sort is an \<open>int\<close> or a \<open>str\<close>; \<open><\<close> between two of them raises \<open>TypeError\<close> when one is an
  \<open>int\<close> and the other a \<open>str\<close>.
\<close>

datatype py_error = TypeError | ValueError

datatype sort_key = IntKey int | StrKey string

text \<open>
  \<open>str.isdigit()\<close> on the code points below 256: the decimal digits and the superscripts
  two, three and one.
\<close>

definition isdigit :: "string \<Rightarrow> bool" where
  "isdigit x = (x \<noteq> [] \<and> list_all (\<lambda>c. is_digit c \<or> c \<in> set [CHR 0xB2, CHR 0xB3, CHR 0xB9]) x)"

text \<open>
  \<open>int(x)\<close> on a string that passed \<open>isdigit()\<close> (so without sign, blank or underscore): the
  value of the decimal digits, and \<open>ValueError\<close> when a superscript is among them or, as
  the interpreters do since version 3.11, when there are more than 4300 digits.
\<close>

definition py_int :: "string \<Rightarrow> py_error + int" where
  "py_int x =
     (if x \<noteq> [] \<and> list_all is_digit x \<and> length x \<le> 4300 then Inr (int (nat_of_digits x))
      else Inl ValueError)"

definition sort_key_of :: "string \<Rightarrow> py_error + sort_key" where
  "sort_key_of x =
     (if isdigit x then (case py_int x of Inl e \<Rightarrow> Inl e | Inr n \<Rightarrow> Inr (IntKey n))
      else Inr (StrKey x))"

text \<open>\<open><\<close> on two strings: the order of the code points, position by position.\<close>

fun str_less :: "string \<Rightarrow> string \<Rightarrow> bool" where
  "str_less [] [] = False"
| "str_less [] (y # ys) = True"
| "str_less (x # xs) [] = False"
| "str_less (x # xs) (y # ys) =
     ((of_char x :: nat) < of_char y \<or> (x = y \<and> str_less xs ys))"

fun key_less :: "sort_key \<Rightarrow> sort_key \<Rightarrow> py_error + bool" where
  "key_less (IntKey a) (IntKey b) = Inr (a < b)"
| "key_less (StrKey a) (StrKey b) = Inr (str_less a b)"
| "key_less (IntKey a) (StrKey b) = Inl TypeError"
| "key_less (StrKey a) (IntKey b) = Inl TypeError"

text \<open>
  The built-in \<open>sorted\<close> first computes the key of every element, in order, and then sorts
  stably with \<open><\<close> on the keys; an exception of a key or of a comparison ends it. It is
  modelled by insertion from the left: an element goes before the first element that is
  greater than it.
\<close>

fun compute_keys :: "string list \<Rightarrow> py_error + (sort_key \<times> string) list" where
  "compute_keys [] = Inr []"
| "compute_keys (x # xs) =
     (case sort_key_of x of
        Inl e \<Rightarrow> Inl e
      | Inr k \<Rightarrow> (case compute_keys xs of Inl e \<Rightarrow> Inl e | Inr ks \<Rightarrow> Inr ((k, x) # ks)))"

fun insert_by_key ::
  "sort_key \<times> string \<Rightarrow> (sort_key \<times> string) list \<Rightarrow> py_error + (sort_key \<times> string) list" where
  "insert_by_key x [] = Inr [x]"
| "insert_by_key x (y # ys) =
     (case key_less (fst x) (fst y) of
        Inl e \<Rightarrow> Inl e
      | Inr True \<Rightarrow> Inr (x # y # ys)
      | Inr False \<Rightarrow> (case insert_by_key x ys of Inl e \<Rightarrow> Inl e | Inr zs \<Rightarrow> Inr (y # zs)))"

fun sort_by_key ::
  "(sort_key \<times> string) list \<Rightarrow> (sort_key \<times> string) list \<Rightarrow> py_error + (sort_key \<times> string) list" where
  "sort_by_key [] placed = Inr placed"
| "sort_by_key (x # xs) placed =
     (case insert_by_key x placed of Inl e \<Rightarrow> Inl e | Inr placed' \<Rightarrow> sort_by_key xs placed')"

definition sorted_ids :: "(string \<times> string) list \<Rightarrow> py_error + string list" where
  "sorted_ids affiliations_map =
     (case compute_keys (map fst affiliations_map) of
        Inl e \<Rightarrow> Inl e
      | Inr ks \<Rightarrow> (case sort_by_key ks [] of Inl e \<Rightarrow> Inl e | Inr s \<Rightarrow> Inr (map snd s)))"

section \<open>Notions of the specification\<close>

subsection \<open>Renumbering\<close>

text \<open>
  The references of all authors in processing order; the distinct elements of a list in
  order of first appearance; the distinct referenced ids that are keys of the mapping
  (the ids that get a sequential number), in that order; the orphans, in the order of the
  mapping.
\<close>

definition all_refs :: "author list \<Rightarrow> string list" where
  "all_refs names_data = concat (map (\<lambda>a. original_ids (affils a)) names_data)"

definition first_seen :: "'a list \<Rightarrow> 'a list" where
  "first_seen xs = rev (remdups (rev xs))"

definition discovered :: "affiliations_map \<Rightarrow> string list \<Rightarrow> string list" where
  "discovered m xs = filter (\<lambda>i. map_of m i \<noteq> None) (first_seen xs)"

definition orphans :: "affiliations_map \<Rightarrow> string list \<Rightarrow> (string \<times> string) list" where
  "orphans m xs = filter (\<lambda>p. fst p \<notin> set xs) m"

text \<open>
  The state the engine is expected to be in once the references \<open>xs\<close> have been
  processed: the id at position \<open>k\<close> (from 0) of \<open>discovered\<close> is numbered \<open>k + 1\<close>, an id that
  is not a key of the mapping is kept, and the output list holds the numbered ids with
  their texts.
\<close>

definition position :: "'a list \<Rightarrow> 'a \<Rightarrow> nat" where
  "position xs x = length (takeWhile (\<lambda>y. y \<noteq> x) xs)"

definition remap_value :: "affiliations_map \<Rightarrow> string list \<Rightarrow> string \<Rightarrow> string" where
  "remap_value m d i = (case map_of m i of None \<Rightarrow> i | Some t \<Rightarrow> str_nat (Suc (position d i)))"

definition remap_spec :: "affiliations_map \<Rightarrow> string list \<Rightarrow> (string \<times> string) list" where
  "remap_spec m xs = map (\<lambda>i. (i, remap_value m (discovered m xs) i)) (first_seen xs)"

definition affs_spec :: "affiliations_map \<Rightarrow> string list \<Rightarrow> (string \<times> string) list" where
  "affs_spec m xs =
     map (\<lambda>i. (str_nat (Suc (position (discovered m xs) i)), the (map_of m i))) (discovered m xs)"

definition after_refs ::
  "affiliations_map \<Rightarrow> string list \<Rightarrow> author list \<Rightarrow> string list \<Rightarrow> renumber_state" where
  "after_refs m xs nd pr = \<lparr>old_to_new_id_map = remap_spec m xs,
     new_affiliations_list = affs_spec m xs,
     current_new_id = Suc (length (discovered m xs)),
     updated_names_data = nd, printed = pr\<rparr>"

text \<open>
  The references paired with their authors, the warnings expected for them (one for the
  first reference to each id that is not a key of the mapping), and an author with its
  references replaced.
\<close>

definition author_refs :: "author list \<Rightarrow> (author \<times> string) list" where
  "author_refs names_data = concat (map (\<lambda>a. map (Pair a) (original_ids (affils a))) names_data)"

fun gap_warnings :: "affiliations_map \<Rightarrow> string list \<Rightarrow> (author \<times> string) list \<Rightarrow> string list" where
  "gap_warnings m seen [] = []"
| "gap_warnings m seen ((a, oid) # rs) =
     (if oid \<notin> set seen \<and> map_of m oid = None then [warning a oid] else [])
       @ gap_warnings m (seen @ [oid]) rs"

definition rewrite_author :: "(string \<Rightarrow> string) \<Rightarrow> author \<Rightarrow> author" where
  "rewrite_author f a =
     (if strip (affils a) = [] then a
      else a\<lparr>affils := join '','' (map f (original_ids (affils a)))\<rparr>)"

text \<open>
  A reference as \<open>original_ids\<close> yields it: not empty, without whitespace at its ends and
  without a comma. The references of an author as the engine reads them, and the author
  with its reference string rewritten from them.
\<close>

definition is_token :: "string \<Rightarrow> bool" where
  "is_token w = (w \<noteq> [] \<and> \<not> is_space (hd w) \<and> \<not> is_space (last w) \<and> CHR '','' \<notin> set w)"

definition references :: "author \<Rightarrow> string list" where
  "references a = original_ids (affils a)"

definition normalize_author :: "author \<Rightarrow> author" where
  "normalize_author a =
     (if strip (affils a) = [] then a else a\<lparr>affils := join '','' (original_ids (affils a))\<rparr>)"

text \<open>
  Canonical input: the mapping is a dictionary, the distinct referenced ids in order of
  first appearance are \<open>1, 2, ..., N\<close> with \<open>N\<close> the size of the mapping, and the keys of the
  mapping are exactly the referenced ids (so every reference is present and there is no
  orphan).
\<close>

definition canonical :: "author list \<Rightarrow> affiliations_map \<Rightarrow> bool" where
  "canonical names_data m =
     (distinct (map fst m)
      \<and> first_seen (all_refs names_data) = map str_nat [1..<Suc (length m)]
      \<and> set (map fst m) = set (all_refs names_data))"

text \<open>
  Inputs of the scenarios: the roster of the specification (Doe references 1 and 2, Smith
  references 2), a reference to the missing id 7, a mapping with the orphan 3, a mapping
  held in the order 2, 1, and a canonical roster.
\<close>

definition scenario_names :: "author list" where
  "scenario_names = [\<lparr>last' = ''Doe'', first = ''Jane A.'', affils = ''1,2''\<rparr>,
     \<lparr>last' = ''Smith'', first = ''John'', affils = ''2''\<rparr>]"

definition scenario_affiliations :: affiliations_map where
  "scenario_affiliations = [(''1'', ''MIT''), (''2'', ''Stanford'')]"

definition gap_names :: "author list" where
  "gap_names = [\<lparr>last' = ''Doe'', first = ''Jane'', affils = ''7,1''\<rparr>]"

definition gap_affiliations :: affiliations_map where
  "gap_affiliations = [(''1'', ''MIT'')]"

definition orphan_affiliations :: affiliations_map where
  "orphan_affiliations = [(''3'', ''Unused U.''), (''1'', ''MIT''), (''2'', ''Stanford'')]"

definition unsorted_affiliations :: affiliations_map where
  "unsorted_affiliations = [(''2'', ''B''), (''1'', ''A'')]"

definition canonical_names :: "author list" where
  "canonical_names = [\<lparr>last' = ''Doe'', first = ''Jane A.'', affils = ''1,2''\<rparr>,
     \<lparr>last' = ''Smith'', first = ''John'', affils = ''2,3''\<rparr>]"

definition canonical_affiliations :: affiliations_map where
  "canonical_affiliations = [(''1'', ''MIT''), (''2'', ''Stanford''), (''3'', ''Broad'')]"

subsection \<open>Segmenter and parsers\<close>

text \<open>
  The sentinel test of the segmenter and the stripped non-blank lines of a text; the six
  lines of the scenario of the specification and the text they make.
\<close>

definition is_sentinel :: "string \<Rightarrow> bool" where
  "is_sentinel clean_line = (lower clean_line = ''affiliations'')"

definition nonblank_lines :: "string list \<Rightarrow> string list" where
  "nonblank_lines lines = filter (\<lambda>l. l \<noteq> []) (map strip lines)"

definition example_lines :: "string list" where
  "example_lines = [''My Title'', ''Jane A. Doe1,2'', ''John Smith2'', ''Affiliations'',
     ''1 MIT'', ''2 Stanford'']"

definition example_text :: string where
  "example_text = join [newline] example_lines"

text \<open>The matches of the affiliation pattern on the stripped lines of a block, in order.\<close>

definition affiliation_matches :: "string \<Rightarrow> (string \<times> string) list" where
  "affiliation_matches text =
     List.map_filter match_affiliation (map strip (split_on newline (strip text)))"

text \<open>The stream the author parser scans, and the name of a segment once trimmed.\<close>

definition flatten :: "string \<Rightarrow> string" where
  "flatten text = strip (map (\<lambda>c. if c = newline then CHR '' '' else c) text)"

definition trimmed_name :: "string \<Rightarrow> string" where
  "trimmed_name group1 = lstrip_chars '', '' (strip group1)"

subsection \<open>Sorting\<close>

text \<open>The kind of a sort key, and a mapping with a numeric and a non-numeric id.\<close>

definition is_int_key :: "sort_key \<Rightarrow> bool" where
  "is_int_key k = (case k of IntKey n \<Rightarrow> True | StrKey x \<Rightarrow> False)"

definition mixed_affiliations :: "(string \<times> string) list" where
  "mixed_affiliations = [(''1'', ''MIT''), (''x'', ''Lab'')]"

section \<open>Lemmas\<close>

subsection \<open>Strings\<close>

lemma strip_Nil [simp]: "strip [] = []"
  by (simp add: strip_def rstrip_def lstrip_def)

lemma strip_eq_Nil_iff: "strip s = [] \<longleftrightarrow> (\<forall>c \<in> set s. is_space c)"
proof -
  let ?l = "dropWhile is_space s"
  have "strip s = [] \<longleftrightarrow> ?l = []"
  proof (cases "?l = []")
    case True
    then show ?thesis by (simp add: strip_def rstrip_def lstrip_def del: dropWhile_eq_Nil_conv)
  next
    case False
    then have "\<not> is_space (hd ?l)" by (rule hd_dropWhile)
    moreover have "hd ?l \<in> set (rev ?l)" using False by simp
    ultimately have "dropWhile is_space (rev ?l) \<noteq> []"
      unfolding dropWhile_eq_Nil_conv by blast
    moreover have "strip s = rev (dropWhile is_space (rev ?l))"
      by (simp add: strip_def rstrip_def lstrip_def)
    ultimately have "strip s \<noteq> []"
      by (simp del: dropWhile_eq_Nil_conv)
    with False show ?thesis by blast
  qed
  then show ?thesis by simp
qed

lemma set_strip: "set (strip s) \<subseteq> set s"
proof -
  have "set (strip s) \<subseteq> set (dropWhile is_space s)"
    unfolding strip_def rstrip_def lstrip_def
    by (auto dest: set_dropWhileD)
  also have "\<dots> \<subseteq> set s"
    by (auto dest: set_dropWhileD)
  finally show ?thesis .
qed

lemma strip_fixed:
  assumes "s \<noteq> []" "\<not> is_space (hd s)" "\<not> is_space (last s)"
  shows "strip s = s"
proof -
  from assms have l: "dropWhile is_space s = s"
    by (cases s) auto
  from assms have "dropWhile is_space (rev s) = rev s"
    by (cases "rev s") (auto simp: last_rev [symmetric] simp del: last_rev)
  with l show ?thesis
    by (simp add: strip_def rstrip_def lstrip_def)
qed

lemma strip_ends:
  assumes "strip s \<noteq> []"
  shows "\<not> is_space (hd (strip s))" and "\<not> is_space (last (strip s))"
proof -
  let ?l = "dropWhile is_space s"
  let ?r = "dropWhile is_space (rev ?l)"
  from assms have r: "?r \<noteq> []" by (simp add: strip_def rstrip_def lstrip_def)
  have l: "?l \<noteq> []"
  proof
    assume "?l = []"
    then have "?r = []" by (simp del: dropWhile_eq_Nil_conv)
    with r show False by contradiction
  qed
  have "\<not> is_space (hd ?r)" using r by (rule hd_dropWhile)
  then show "\<not> is_space (last (strip s))"
    using r by (simp add: strip_def rstrip_def lstrip_def last_rev)
  have nl: "\<not> is_space (hd ?l)" using l by (rule hd_dropWhile)
  obtain us where us: "rev ?l = us @ ?r"
    by (metis takeWhile_dropWhile_id)
  then have "?l = rev ?r @ rev us"
    by (metis rev_append rev_rev_ident)
  moreover have "rev ?r \<noteq> []" using r by simp
  ultimately have "hd (rev ?r) = hd ?l" by (metis hd_append2)
  with nl show "\<not> is_space (hd (strip s))"
    by (simp add: strip_def rstrip_def lstrip_def)
qed

lemma strip_strip: "strip (strip s) = strip s"
proof (cases "strip s = []")
  case True
  then show ?thesis by simp
next
  case False
  then show ?thesis by (intro strip_fixed strip_ends)
qed

lemma split_on_not_Nil [simp]: "split_on sep s \<noteq> []"
  by (induction s) (auto split: list.splits)

lemma set_split_on: "p \<in> set (split_on sep s) \<Longrightarrow> set p \<subseteq> set s - {sep}"
proof (induction s arbitrary: p)
  case Nil
  then show ?case by simp
next
  case (Cons c s)
  show ?case
  proof (cases "c = sep")
    case True
    with Cons show ?thesis by auto
  next
    case False
    obtain w ws where w: "split_on sep s = w # ws"
      by (cases "split_on sep s") auto
    with Cons False show ?thesis by fastforce
  qed
qed

lemma split_on_no_sep: "sep \<notin> set w \<Longrightarrow> split_on sep w = [w]"
  by (induction w) auto

lemma split_on_append:
  "sep \<notin> set w \<Longrightarrow> split_on sep (w @ sep # s) = w # split_on sep s"
  by (induction w) auto

lemma join_Cons: "ws \<noteq> [] \<Longrightarrow> join sep (w # ws) = w @ sep @ join sep ws"
  by (cases ws) auto

lemma split_on_join:
  "ws \<noteq> [] \<Longrightarrow> \<forall>w \<in> set ws. sep \<notin> set w \<Longrightarrow> split_on sep (join [sep] ws) = ws"
proof (induction ws rule: list_nonempty_induct)
  case (single w)
  then show ?case by (simp add: split_on_no_sep)
next
  case (cons w ws)
  then show ?case by (simp add: join_Cons split_on_append)
qed

lemma original_ids_blank: "strip s = [] \<Longrightarrow> original_ids s = []"
proof -
  assume "strip s = []"
  then have "\<forall>c \<in> set s. is_space c" by (simp add: strip_eq_Nil_iff)
  then have "\<forall>p \<in> set (split_on CHR '','' s). strip p = []"
    using set_split_on [of _ "CHR '',''" s] by (fastforce simp: strip_eq_Nil_iff)
  then show ?thesis by (simp add: original_ids_def filter_empty_conv)
qed

lemma original_ids_tokens: "w \<in> set (original_ids s) \<Longrightarrow> is_token w"
proof -
  assume "w \<in> set (original_ids s)"
  then obtain p where p: "p \<in> set (split_on CHR '','' s)" "strip p \<noteq> []" "w = strip p"
    by (auto simp: original_ids_def)
  have "CHR '','' \<notin> set p" using set_split_on [OF p(1)] by auto
  then have "CHR '','' \<notin> set (strip p)" using set_strip [of p] by auto
  with p strip_ends [of p] show ?thesis by (simp add: is_token_def)
qed

lemma original_ids_join:
  assumes "\<forall>w \<in> set ws. is_token w"
  shows "original_ids (join '','' ws) = ws"
proof (cases "ws = []")
  case True
  then show ?thesis by (simp add: original_ids_def)
next
  case False
  with assms have sp: "split_on CHR '','' (join '','' ws) = ws"
    by (intro split_on_join) (auto simp: is_token_def)
  have fixed: "\<forall>w \<in> set ws. strip w = w \<and> strip w \<noteq> []"
    using assms by (auto simp: is_token_def strip_fixed)
  then have "filter (\<lambda>x. strip x \<noteq> []) ws = ws"
    unfolding filter_id_conv by blast
  moreover have "map strip ws = ws"
    using fixed by (simp add: map_idI)
  ultimately show ?thesis
    by (simp add: original_ids_def sp)
qed

lemma join_tokens_not_blank:
  assumes "ws \<noteq> []" "\<forall>w \<in> set ws. is_token w"
  shows "strip (join '','' ws) \<noteq> []"
proof -
  from assms obtain w vs where ws: "ws = w # vs" by (cases ws) auto
  with assms have "w \<noteq> []" "\<not> is_space (hd w)" by (auto simp: is_token_def)
  moreover have "hd w \<in> set (join '','' ws)"
    using ws \<open>w \<noteq> []\<close> by (cases vs) auto
  ultimately show ?thesis by (auto simp: strip_eq_Nil_iff)
qed

subsection \<open>The state after a list of references\<close>

lemma first_seen_snoc:
  "first_seen (xs @ [x]) = (if x \<in> set xs then first_seen xs else first_seen xs @ [x])"
  by (simp add: first_seen_def)

lemma set_first_seen [simp]: "set (first_seen xs) = set xs"
  by (simp add: first_seen_def)

lemma distinct_first_seen [simp]: "distinct (first_seen xs)"
  by (simp add: first_seen_def)

lemma first_seen_append:
  "first_seen (xs @ ys) = first_seen xs @ filter (\<lambda>y. y \<notin> set xs) (first_seen ys)"
proof -
  have "remdups (zs @ rev xs) = filter (\<lambda>y. y \<notin> set xs) (remdups zs) @ remdups (rev xs)"
    for zs
    by (induction zs) auto
  then show ?thesis
    by (simp add: first_seen_def rev_filter)
qed

lemma discovered_snoc:
  "discovered m (xs @ [x]) =
     (if x \<in> set xs \<or> map_of m x = None then discovered m xs else discovered m xs @ [x])"
  by (simp add: discovered_def first_seen_snoc)

lemma discovered_append:
  "discovered m (xs @ ys) = discovered m xs @ filter (\<lambda>y. y \<notin> set xs) (discovered m ys)"
  by (simp add: discovered_def first_seen_append conj_commute)

lemma set_discovered: "set (discovered m xs) = {i \<in> set xs. map_of m i \<noteq> None}"
  by (auto simp: discovered_def)

lemma distinct_discovered [simp]: "distinct (discovered m xs)"
  by (simp add: discovered_def)

lemma position_append: "x \<in> set xs \<Longrightarrow> position (xs @ ys) x = position xs x"
  by (simp add: position_def)

lemma position_fresh: "x \<notin> set xs \<Longrightarrow> position (xs @ x # ys) x = length xs"
  by (simp add: position_def takeWhile_append2 takeWhile_append)

lemma remap_value_append:
  "i \<in> set xs \<Longrightarrow> remap_value m (discovered m (xs @ ys)) i = remap_value m (discovered m xs) i"
  by (auto simp: remap_value_def discovered_append position_append set_discovered
      split: option.splits)

lemma remap_spec_snoc_old:
  "x \<in> set xs \<Longrightarrow> remap_spec m (xs @ [x]) = remap_spec m xs"
  by (simp add: remap_spec_def first_seen_snoc discovered_snoc)

lemma remap_spec_snoc_new:
  "x \<notin> set xs \<Longrightarrow>
   remap_spec m (xs @ [x]) = remap_spec m xs @ [(x, remap_value m (discovered m (xs @ [x])) x)]"
  using remap_value_append [of _ xs m "[x]"]
  by (simp add: remap_spec_def first_seen_snoc)

lemma map_of_remap_spec:
  "map_of (remap_spec m xs) i =
     (if i \<in> set xs then Some (remap_value m (discovered m xs) i) else None)"
proof -
  have "map_of (map (\<lambda>i. (i, f i)) ys) i = (if i \<in> set ys then Some (f i) else None)"
    for f :: "string \<Rightarrow> string" and ys
    by (induction ys) auto
  then show ?thesis by (simp add: remap_spec_def)
qed

lemma update_fresh: "map_of al k = None \<Longrightarrow> AList.update k v al = al @ [(k, v)]"
  by (induction al) (auto split: if_splits)

lemma affs_spec_snoc_new:
  "x \<notin> set xs \<Longrightarrow> map_of m x = Some t \<Longrightarrow>
   affs_spec m (xs @ [x]) = affs_spec m xs @ [(str_nat (Suc (length (discovered m xs))), t)]"
  by (simp add: affs_spec_def discovered_snoc position_append position_fresh set_discovered)

lemma affs_spec_snoc_same:
  "x \<in> set xs \<or> map_of m x = None \<Longrightarrow> affs_spec m (xs @ [x]) = affs_spec m xs"
  by (auto simp add: affs_spec_def discovered_snoc)

subsection \<open>The loops of the engine\<close>

lemma process_id_after_refs:
  "process_id m a oid (after_refs m xs nd pr, ns) =
     (after_refs m (xs @ [oid]) nd
        (if oid \<notin> set xs \<and> map_of m oid = None then pr @ [warning a oid] else pr),
      ns @ [remap_value m (discovered m (xs @ [oid])) oid])"
proof (cases "oid \<in> set xs")
  case True
  then show ?thesis
    using remap_value_append [of oid xs m "[oid]"]
    by (simp add: process_id_def after_refs_def map_of_remap_spec remap_spec_snoc_old
        affs_spec_snoc_same discovered_snoc)
next
  case False
  show ?thesis
  proof (cases "map_of m oid")
    case None
    with False show ?thesis
      by (simp add: process_id_def after_refs_def map_of_remap_spec remap_spec_snoc_new
        affs_spec_snoc_same discovered_snoc update_fresh remap_value_def)
  next
    case (Some t)
    with False show ?thesis
      by (simp add: process_id_def after_refs_def map_of_remap_spec remap_spec_snoc_new
        affs_spec_snoc_new discovered_snoc update_fresh remap_value_def position_fresh
        set_discovered Let_def)
  qed
qed

lemma gap_warnings_append:
  "gap_warnings m seen (rs @ rs') =
     gap_warnings m seen rs @ gap_warnings m (seen @ map snd rs) rs'"
  by (induction rs arbitrary: seen) auto

lemma all_refs_author_refs: "all_refs names_data = map snd (author_refs names_data)"
  by (induction names_data) (simp_all add: all_refs_def author_refs_def comp_def)

lemma process_ids_after_refs:
  "process_ids m a oids (after_refs m xs nd pr, ns) =
     (after_refs m (xs @ oids) nd (pr @ gap_warnings m xs (map (Pair a) oids)),
      ns @ map (remap_value m (discovered m (xs @ oids))) oids)"
proof (induction oids arbitrary: xs pr ns)
  case Nil
  then show ?case by simp
next
  case (Cons oid oids)
  have "remap_value m (discovered m ((xs @ [oid]) @ oids)) oid
      = remap_value m (discovered m (xs @ [oid])) oid"
    by (rule remap_value_append) simp
  then show ?case
    by (simp add: process_id_after_refs Cons.IH)
qed

lemma process_author_after_refs:
  "process_author m a (after_refs m xs nd pr) =
     after_refs m (xs @ original_ids (affils a))
       (nd @ [rewrite_author (remap_value m (discovered m (xs @ original_ids (affils a)))) a])
       (pr @ gap_warnings m xs (map (Pair a) (original_ids (affils a))))"
proof (cases "strip (affils a) = []")
  case True
  then have "original_ids (affils a) = []"
    by (rule original_ids_blank)
  with True show ?thesis
    by (simp add: process_author_def rewrite_author_def after_refs_def)
next
  case False
  then show ?thesis
    by (simp add: process_author_def rewrite_author_def process_ids_after_refs Let_def)
       (simp add: after_refs_def)
qed

lemma rewrite_author_cong:
  "(\<And>i. i \<in> set (original_ids (affils a)) \<Longrightarrow> f i = g i) \<Longrightarrow> rewrite_author f a = rewrite_author g a"
  by (simp add: rewrite_author_def cong: map_cong)

lemma process_authors_after_refs:
  "process_authors m names_data (after_refs m xs nd pr) =
     after_refs m (xs @ all_refs names_data)
       (nd @ map (rewrite_author (remap_value m (discovered m (xs @ all_refs names_data)))) names_data)
       (pr @ gap_warnings m xs (author_refs names_data))"
proof (induction names_data arbitrary: xs nd pr)
  case Nil
  then show ?case by (simp add: all_refs_def author_refs_def)
next
  case (Cons a names_data)
  let ?ids = "original_ids (affils a)"
  have refs: "all_refs (a # names_data) = ?ids @ all_refs names_data"
    by (simp add: all_refs_def)
  have arefs: "author_refs (a # names_data) = map (Pair a) ?ids @ author_refs names_data"
    by (simp add: author_refs_def)
  have same: "rewrite_author (remap_value m (discovered m (xs @ ?ids))) a
      = rewrite_author (remap_value m (discovered m (xs @ ?ids @ all_refs names_data))) a"
    using remap_value_append [of _ "xs @ ?ids" m "all_refs names_data"]
    by (intro rewrite_author_cong) simp
  show ?case
    by (simp add: process_author_after_refs Cons.IH refs arefs same gap_warnings_append comp_def)
qed

lemma process_orphans_eq:
  "distinct (map fst items) \<Longrightarrow>
   process_orphans items st =
     st\<lparr>old_to_new_id_map := old_to_new_id_map st @
          map (\<lambda>(n, p). (fst p, str_nat n))
            (enumerate (current_new_id st)
               (filter (\<lambda>p. map_of (old_to_new_id_map st) (fst p) = None) items)),
        new_affiliations_list := new_affiliations_list st @
          map (\<lambda>(n, p). (str_nat n, snd p))
            (enumerate (current_new_id st)
               (filter (\<lambda>p. map_of (old_to_new_id_map st) (fst p) = None) items)),
        current_new_id := current_new_id st +
          length (filter (\<lambda>p. map_of (old_to_new_id_map st) (fst p) = None) items)\<rparr>"
proof (induction items arbitrary: st)
  case Nil
  then show ?case by simp
next
  case (Cons p items)
  obtain oid t where p: "p = (oid, t)" by (cases p)
  from Cons.prems p have fresh: "oid \<notin> fst ` set items" and d: "distinct (map fst items)"
    by auto
  show ?case
  proof (cases "map_of (old_to_new_id_map st) oid")
    case (Some v)
    then show ?thesis using Cons.IH [OF d, of st] by (simp add: p)
  next
    case None
    let ?st = "st\<lparr>old_to_new_id_map := old_to_new_id_map st @ [(oid, str_nat (current_new_id st))],
                 new_affiliations_list := new_affiliations_list st @ [(str_nat (current_new_id st), t)],
                 current_new_id := current_new_id st + 1\<rparr>"
    have same: "filter (\<lambda>p. map_of (old_to_new_id_map ?st) (fst p) = None) items
        = filter (\<lambda>p. map_of (old_to_new_id_map st) (fst p) = None) items"
      using fresh by (intro filter_cong) (auto simp: map_of_append)
    have "process_orphans (p # items) st = process_orphans items ?st"
      using None by (simp add: p Let_def update_fresh)
    also note Cons.IH [OF d, of ?st]
    finally show ?thesis
      unfolding same using None by (simp add: p)
  qed
qed

lemma initial_state_after_refs: "initial_state = after_refs m [] [] []"
  by (simp add: initial_state_def after_refs_def remap_spec_def affs_spec_def discovered_def
      first_seen_def)

lemma renumber_run_eq:
  assumes "distinct (map fst m)"
  shows "renumber_run names_data m =
    \<lparr>old_to_new_id_map = remap_spec m (all_refs names_data) @
        map (\<lambda>(n, p). (fst p, str_nat n))
          (enumerate (Suc (length (discovered m (all_refs names_data))))
             (orphans m (all_refs names_data))),
      new_affiliations_list = affs_spec m (all_refs names_data) @
        map (\<lambda>(n, p). (str_nat n, snd p))
          (enumerate (Suc (length (discovered m (all_refs names_data))))
             (orphans m (all_refs names_data))),
      current_new_id = Suc (length (discovered m (all_refs names_data)))
        + length (orphans m (all_refs names_data)),
      updated_names_data =
        map (rewrite_author (remap_value m (discovered m (all_refs names_data)))) names_data,
      printed = gap_warnings m [] (author_refs names_data)\<rparr>"
proof -
  have "filter (\<lambda>p. map_of (remap_spec m (all_refs names_data)) (fst p) = None) m
      = orphans m (all_refs names_data)"
    by (simp add: orphans_def map_of_remap_spec)
  then show ?thesis
    using process_authors_after_refs [of m names_data "[]" "[]" "[]"]
    by (simp add: renumber_run_def initial_state_after_refs [of m] process_orphans_eq [OF assms])
       (simp add: after_refs_def)
qed

lemma process_authors_eq:
  "process_authors m names_data initial_state =
     after_refs m (all_refs names_data)
       (map (rewrite_author (remap_value m (discovered m (all_refs names_data)))) names_data)
       (gap_warnings m [] (author_refs names_data))"
  using process_authors_after_refs [of m names_data "[]" "[]" "[]"]
  by (simp add: initial_state_after_refs [of m])

subsection \<open>Decimal numerals\<close>

lemma digit_value_digit_char: "d < 10 \<Longrightarrow> digit_value (digit_char d) = d"
proof -
  assume "d < 10"
  then have "d = 0 \<or> d = 1 \<or> d = 2 \<or> d = 3 \<or> d = 4 \<or> d = 5 \<or> d = 6 \<or> d = 7 \<or> d = 8
      \<or> d = 9"
    by arith
  then show ?thesis
    by (auto simp: digit_value_def digit_char_def)
qed

lemma nat_of_digits_str_nat: "nat_of_digits (str_nat n) = n"
proof (induction n rule: str_nat.induct)
  case (1 n)
  show ?case
  proof (cases "n < 10")
    case True
    then show ?thesis
      by (simp add: str_nat.simps [of n] nat_of_digits_def digit_value_digit_char)
  next
    case False
    with 1 have "nat_of_digits (str_nat (n div 10)) = n div 10" by simp
    with False show ?thesis
      by (simp add: str_nat.simps [of n] nat_of_digits_def digit_value_digit_char)
  qed
qed

lemma inj_str_nat: "inj str_nat"
  by (rule inj_on_inverseI [of _ nat_of_digits]) (rule nat_of_digits_str_nat)

lemma str_nat_eq_iff [simp]: "str_nat a = str_nat b \<longleftrightarrow> a = b"
  using inj_str_nat by (auto dest: injD)

lemma distinct_map_str_nat: "distinct ns \<Longrightarrow> distinct (map str_nat ns)"
  by (simp add: distinct_map inj_str_nat inj_on_subset [OF _ subset_UNIV])

subsection \<open>The final state of a run\<close>

lemma position_nth: "distinct xs \<Longrightarrow> k < length xs \<Longrightarrow> position xs (xs ! k) = k"
proof -
  assume d: "distinct xs" and k: "k < length xs"
  then have "xs = take k xs @ xs ! k # drop (Suc k) xs"
    by (simp add: id_take_nth_drop)
  moreover have "xs ! k \<notin> set (take k xs)"
    using d k by (metis distinct_take id_take_nth_drop not_distinct_conv_prefix)
  ultimately have "position xs (xs ! k) = length (take k xs)"
    by (metis position_fresh)
  with k show ?thesis by simp
qed

lemma map_position: "distinct xs \<Longrightarrow> map (position xs) xs = [0..<length xs]"
  by (rule nth_equalityI) (simp_all add: position_nth)

lemma process_orphans_extends:
  "\<exists>r' o'. old_to_new_id_map (process_orphans items st) = old_to_new_id_map st @ r'
     \<and> new_affiliations_list (process_orphans items st) = new_affiliations_list st @ o'
     \<and> updated_names_data (process_orphans items st) = updated_names_data st
     \<and> printed (process_orphans items st) = printed st"
proof (induction items arbitrary: st)
  case Nil
  then show ?case by simp
next
  case (Cons p items)
  obtain oid t where p: "p = (oid, t)" by (cases p)
  show ?case
  proof (cases "map_of (old_to_new_id_map st) oid")
    case (Some v)
    then show ?thesis using Cons.IH [of st] by (simp add: p)
  next
    case None
    let ?st = "st\<lparr>old_to_new_id_map := old_to_new_id_map st @ [(oid, str_nat (current_new_id st))],
                 new_affiliations_list := new_affiliations_list st @ [(str_nat (current_new_id st), t)],
                 current_new_id := current_new_id st + 1\<rparr>"
    have step: "process_orphans (p # items) st = process_orphans items ?st"
      using None by (simp add: p Let_def update_fresh)
    from Cons.IH [of ?st] show ?thesis
      unfolding step by auto
  qed
qed

lemma map_of_append_left: "map_of xs k = Some v \<Longrightarrow> map_of (xs @ ys) k = Some v"
  by (simp add: map_of_append)

lemma renumber_run_names:
  "updated_names_data (renumber_run names_data m) =
     map (rewrite_author (remap_value m (discovered m (all_refs names_data)))) names_data"
  using process_orphans_extends [of m "process_authors m names_data initial_state"]
  by (auto simp: renumber_run_def process_authors_eq after_refs_def)

lemma renumber_run_printed:
  "printed (renumber_run names_data m) = gap_warnings m [] (author_refs names_data)"
  using process_orphans_extends [of m "process_authors m names_data initial_state"]
  by (auto simp: renumber_run_def process_authors_eq after_refs_def)

lemma renumber_run_remap:
  "\<exists>r'. old_to_new_id_map (renumber_run names_data m) = remap_spec m (all_refs names_data) @ r'"
  using process_orphans_extends [of m "process_authors m names_data initial_state"]
  by (auto simp: renumber_run_def process_authors_eq after_refs_def)

lemma renumber_run_affs:
  "\<exists>o'. new_affiliations_list (renumber_run names_data m) = affs_spec m (all_refs names_data) @ o'"
  using process_orphans_extends [of m "process_authors m names_data initial_state"]
  by (auto simp: renumber_run_def process_authors_eq after_refs_def)

lemma renumber_run_lookup:
  assumes "i \<in> set (all_refs names_data)"
  shows "map_of (old_to_new_id_map (renumber_run names_data m)) i =
    Some (remap_value m (discovered m (all_refs names_data)) i)"
proof -
  obtain r' where "old_to_new_id_map (renumber_run names_data m)
      = remap_spec m (all_refs names_data) @ r'"
    using renumber_run_remap by blast
  then show ?thesis
    using assms by (simp add: map_of_append_left map_of_remap_spec)
qed

lemma affs_spec_nth:
  "affs_spec m xs =
     map (\<lambda>k. (str_nat (Suc k), the (map_of m (discovered m xs ! k)))) [0..<length (discovered m xs)]"
  by (rule nth_equalityI) (simp_all add: affs_spec_def position_nth)

lemma remap_of_found:
  "map (map_of (old_to_new_id_map (renumber_run names_data m))) (discovered m (all_refs names_data))
     = map (\<lambda>k. Some (str_nat (Suc k))) [0..<length (discovered m (all_refs names_data))]"
proof (rule nth_equalityI)
  let ?st = "renumber_run names_data m"
  let ?refs = "all_refs names_data"
  let ?found = "discovered m ?refs"
  show "length (map (map_of (old_to_new_id_map ?st)) ?found)
      = length (map (\<lambda>k. Some (str_nat (Suc k))) [0..<length ?found])"
    by simp
  fix k assume "k < length (map (map_of (old_to_new_id_map ?st)) ?found)"
  then have k: "k < length ?found" by simp
  then have "?found ! k \<in> set ?found" by simp
  then have "?found ! k \<in> set ?refs" and "map_of m (?found ! k) \<noteq> None"
    by (simp_all add: set_discovered)
  then have "map_of (old_to_new_id_map ?st) (?found ! k)
      = Some (str_nat (Suc (position ?found (?found ! k))))"
    by (auto simp: renumber_run_lookup remap_value_def)
  with k show "map (map_of (old_to_new_id_map ?st)) ?found ! k
      = map (\<lambda>k. Some (str_nat (Suc k))) [0..<length ?found] ! k"
    by (simp add: position_nth)
qed

lemma scenario_run:
  "renumber_run scenario_names scenario_affiliations =
     \<lparr>old_to_new_id_map = [(''1'', ''1''), (''2'', ''2'')],
      new_affiliations_list = [(''1'', ''MIT''), (''2'', ''Stanford'')],
      current_new_id = 3,
      updated_names_data = scenario_names, printed = []\<rparr>"
  by code_simp

lemma scenario_affils: "map affils scenario_names = [''1,2'', ''2'']"
  by (simp add: scenario_names_def)

lemma map_enumerate_fst: "map (g \<circ> fst) (enumerate k xs) = map g [k..<k + length xs]"
  by (simp only: map_map [symmetric] map_fst_enumerate)

lemma map_enumerate_snd: "map (g \<circ> snd) (enumerate k xs) = map g xs"
  by (simp only: map_map [symmetric] map_snd_enumerate)

lemma map_fst_enumerate_str:
  "map (fst \<circ> (\<lambda>(n, p). (str_nat n, snd p))) (enumerate k xs) = map str_nat [k..<k + length xs]"
proof -
  have "fst \<circ> (\<lambda>(n, p). (str_nat n, snd p)) = str_nat \<circ> fst"
    by (auto simp: fun_eq_iff)
  then show ?thesis by (metis map_enumerate_fst)
qed

lemma map_snd_enumerate_str:
  "map (snd \<circ> (\<lambda>(n, p). (fst p, str_nat n))) (enumerate k xs) = map str_nat [k..<k + length xs]"
proof -
  have "snd \<circ> (\<lambda>(n, p). (fst p, str_nat n)) = str_nat \<circ> fst"
    by (auto simp: fun_eq_iff)
  then show ?thesis by (metis map_enumerate_fst)
qed

lemma map_fst_enumerate_key:
  "map (fst \<circ> (\<lambda>(n, p). (fst p, str_nat n))) (enumerate k xs) = map fst xs"
proof -
  have "fst \<circ> (\<lambda>(n, p). (fst p, str_nat n)) = fst \<circ> snd"
    by (auto simp: fun_eq_iff)
  then show ?thesis by (metis map_enumerate_snd)
qed

lemma upt_from_one: "map (\<lambda>k. f (Suc k)) [0..<n] = map f [1..<Suc n]"
proof -
  have "map (\<lambda>k. f (Suc k)) [0..<n] = map f (map Suc [0..<n])" by simp
  also have "map Suc [0..<n] = [1..<Suc n]" by (simp add: map_Suc_upt del: upt_Suc)
  finally show ?thesis .
qed

lemma upt_one_split: "[Suc 0..<Suc (k + n)] = [Suc 0..<Suc k] @ [Suc k..<Suc (k + n)]"
  using upt_add_eq_append [of "Suc 0" "Suc k" n] by (simp del: upt_Suc)

lemma map_fst_affs_spec:
  "map fst (affs_spec m xs) = map str_nat [1..<Suc (length (discovered m xs))]"
  using upt_from_one [of str_nat "length (discovered m xs)"]
  by (simp add: affs_spec_nth comp_def del: upt_Suc)

lemma map_snd_remap_spec:
  assumes "set xs \<subseteq> fst ` set m"
  shows "map snd (remap_spec m xs) = map str_nat [1..<Suc (length (discovered m xs))]"
proof -
  have present: "map_of m i \<noteq> None" if "i \<in> set xs" for i
    using assms that by (auto simp: map_of_eq_None_iff)
  then have found: "discovered m xs = first_seen xs"
    by (simp add: discovered_def)
  have "map snd (remap_spec m xs) = map (\<lambda>i. str_nat (Suc (position (first_seen xs) i))) (first_seen xs)"
    using present by (fastforce simp: remap_spec_def found remap_value_def comp_def)
  also have "\<dots> = map (\<lambda>k. str_nat (Suc k)) (map (position (first_seen xs)) (first_seen xs))"
    by (simp add: comp_def)
  also have "\<dots> = map str_nat [1..<Suc (length (first_seen xs))]"
    by (simp only: map_position [OF distinct_first_seen] upt_from_one)
  finally show ?thesis by (simp only: found)
qed

lemma renumber_run_ids:
  assumes "distinct (map fst m)"
  shows "map fst (new_affiliations_list (renumber_run names_data m)) =
    map str_nat [1..<Suc (length (discovered m (all_refs names_data))
      + length (orphans m (all_refs names_data)))]"
  by (simp add: renumber_run_eq [OF assms] map_fst_affs_spec map_fst_enumerate_str upt_one_split
      del: upt_Suc)

lemma renumber_run_values:
  assumes "distinct (map fst m)" and "set (all_refs names_data) \<subseteq> fst ` set m"
  shows "map snd (old_to_new_id_map (renumber_run names_data m)) =
    map str_nat [1..<Suc (length (discovered m (all_refs names_data))
      + length (orphans m (all_refs names_data)))]"
  by (simp add: renumber_run_eq [OF assms(1)] map_snd_remap_spec [OF assms(2)]
      map_snd_enumerate_str upt_one_split del: upt_Suc)

lemma renumber_run_keys:
  assumes "distinct (map fst m)"
  shows "map fst (old_to_new_id_map (renumber_run names_data m)) =
    first_seen (all_refs names_data) @ map fst (orphans m (all_refs names_data))"
  by (simp add: renumber_run_eq [OF assms] remap_spec_def map_fst_enumerate_key)
     (simp add: comp_def)

lemma distinct_renumber_run_keys:
  assumes "distinct (map fst m)"
  shows "distinct (map fst (old_to_new_id_map (renumber_run names_data m)))"
proof -
  have "distinct (map fst (orphans m (all_refs names_data)))"
    using assms by (simp add: orphans_def distinct_map_filter)
  moreover have "set (first_seen (all_refs names_data))
      \<inter> set (map fst (orphans m (all_refs names_data))) = {}"
    by (auto simp: orphans_def)
  ultimately show ?thesis
    by (simp add: renumber_run_keys [OF assms])
qed

lemma length_discovered: "length (discovered m xs) = card (set xs \<inter> fst ` set m)"
proof -
  have "set (discovered m xs) = set xs \<inter> fst ` set m"
    by (auto simp: set_discovered map_of_eq_None_iff)
  then show ?thesis
    using distinct_card [OF distinct_discovered, of m xs] by simp
qed

lemma scenario_refs: "all_refs scenario_names = [''1'', ''2'', ''2'']"
  by code_simp

lemma scenario_keys: "map fst scenario_affiliations = [''1'', ''2'']"
  by (simp add: scenario_affiliations_def)

lemma gap_run:
  "renumber_run gap_names gap_affiliations =
     \<lparr>old_to_new_id_map = [(''7'', ''7''), (''1'', ''1'')],
      new_affiliations_list = [(''1'', ''MIT'')],
      current_new_id = 2,
      updated_names_data = [\<lparr>last' = ''Doe'', first = ''Jane'', affils = ''7,1''\<rparr>],
      printed = [warning (hd gap_names) ''7'']\<rparr>"
  by code_simp

lemma gap_refs: "all_refs gap_names = [''7'', ''1'']"
  by code_simp

lemma gap_found: "discovered gap_affiliations (all_refs gap_names) = [''1'']"
  by code_simp

lemma gap_orphans: "orphans gap_affiliations (all_refs gap_names) = []"
  by code_simp

lemma orphan_scenario_refs: "all_refs scenario_names = [''1'', ''2'', ''2'']"
  by code_simp

lemma orphan_scenario_found: "discovered orphan_affiliations [''1'', ''2'', ''2''] = [''1'', ''2'']"
  by code_simp

lemma gap_warnings_mem:
  "oid \<in> snd ` set rs \<Longrightarrow> oid \<notin> set seen \<Longrightarrow> map_of m oid = None \<Longrightarrow>
   \<exists>b. (b, oid) \<in> set rs \<and> warning b oid \<in> set (gap_warnings m seen rs)"
proof (induction rs arbitrary: seen)
  case Nil
  then show ?case by simp
next
  case (Cons r rs)
  obtain b i where r: "r = (b, i)" by (cases r)
  show ?case
  proof (cases "i = oid")
    case True
    with Cons.prems show ?thesis by (auto simp: r)
  next
    case False
    with Cons.prems have "oid \<in> snd ` set rs" and "oid \<notin> set (seen @ [i])"
      by (auto simp: r)
    from Cons.IH [OF this Cons.prems(3)] show ?thesis
      by (auto simp: r)
  qed
qed

lemma author_refs_mem:
  "(b, oid) \<in> set (author_refs names_data) \<longleftrightarrow> b \<in> set names_data \<and> oid \<in> set (original_ids (affils b))"
  by (auto simp: author_refs_def)

lemma first_gap_warning:
  "oid \<in> set (all_refs names_data) \<Longrightarrow> map_of m oid = None \<Longrightarrow> oid \<notin> set seen \<Longrightarrow>
   \<exists>before b after. names_data = before @ b # after \<and> oid \<notin> set (all_refs before)
     \<and> oid \<in> set (original_ids (affils b))
     \<and> warning b oid \<in> set (gap_warnings m seen (author_refs names_data))"
proof (induction names_data arbitrary: seen)
  case Nil
  then show ?case by (simp add: all_refs_def)
next
  case (Cons a names_data)
  let ?ids = "original_ids (affils a)"
  have arefs: "author_refs (a # names_data) = map (Pair a) ?ids @ author_refs names_data"
    by (simp add: author_refs_def)
  show ?case
  proof (cases "oid \<in> set ?ids")
    case True
    then have "oid \<in> snd ` set (map (Pair a) ?ids)" by force
    from gap_warnings_mem [OF this Cons.prems(3,2)]
    have "warning a oid \<in> set (gap_warnings m seen (map (Pair a) ?ids))" by auto
    then have "warning a oid \<in> set (gap_warnings m seen (author_refs (a # names_data)))"
      by (simp add: arefs gap_warnings_append)
    moreover have "a # names_data = [] @ a # names_data" and "oid \<notin> set (all_refs [])"
      by (simp_all add: all_refs_def)
    ultimately show ?thesis using True by blast
  next
    case False
    with Cons.prems(1) have rest: "oid \<in> set (all_refs names_data)"
      by (simp add: all_refs_def)
    from False Cons.prems(3) have "oid \<notin> set (seen @ map snd (map (Pair a) ?ids))"
      by (simp add: comp_def)
    from Cons.IH [OF rest Cons.prems(2) this]
    obtain before b after where split: "names_data = before @ b # after"
      and fresh: "oid \<notin> set (all_refs before)" and ref: "oid \<in> set (original_ids (affils b))"
      and w: "warning b oid \<in> set (gap_warnings m (seen @ map snd (map (Pair a) ?ids))
                 (author_refs names_data))"
      by blast
    from split have "a # names_data = (a # before) @ b # after" by simp
    moreover from fresh False have "oid \<notin> set (all_refs (a # before))"
      by (simp add: all_refs_def)
    moreover from w have "warning b oid \<in> set (gap_warnings m seen (author_refs (a # names_data)))"
      by (simp add: arefs gap_warnings_append)
    ultimately show ?thesis using ref by blast
  qed
qed

lemma gap_warning_line:
  "warning (hd gap_names) ''7'' =
     ''Warning: Author Doe references affiliation ID '' @ [CHR 0x27] @ ''7'' @ [CHR 0x27]
       @ '', which is not in the affiliations file. Keeping original ID.''"
  by (simp add: warning_def gap_names_def)

lemma map_snd_affs_spec:
  "map (\<lambda>p. Some (snd p)) (affs_spec m xs) = map (map_of m) (discovered m xs)"
  by (auto simp: affs_spec_def set_discovered)

lemma take_found_affs:
  "take (length (discovered m (all_refs names_data))) (new_affiliations_list (renumber_run names_data m))
     = affs_spec m (all_refs names_data)"
proof -
  obtain o' where "new_affiliations_list (renumber_run names_data m)
      = affs_spec m (all_refs names_data) @ o'"
    using renumber_run_affs by blast
  moreover have "length (affs_spec m (all_refs names_data)) = length (discovered m (all_refs names_data))"
    by (simp add: affs_spec_def)
  ultimately show ?thesis by simp
qed

subsection \<open>Canonical input\<close>

lemma canonical_found:
  assumes "canonical names_data m"
  shows "discovered m (all_refs names_data) = map str_nat [1..<Suc (length m)]"
proof -
  have "map_of m i \<noteq> None" if "i \<in> set (all_refs names_data)" for i
    using assms that by (auto simp: canonical_def map_of_eq_None_iff simp flip: set_map)
  then have "discovered m (all_refs names_data) = first_seen (all_refs names_data)"
    by (simp add: discovered_def)
  with assms show ?thesis by (simp add: canonical_def)
qed

lemma canonical_orphans:
  assumes "canonical names_data m"
  shows "orphans m (all_refs names_data) = []"
proof -
  have "fst p \<in> set (all_refs names_data)" if "p \<in> set m" for p
  proof -
    from that have "fst p \<in> set (map fst m)" by simp
    with assms show ?thesis by (simp only: canonical_def)
  qed
  then show ?thesis by (simp add: orphans_def filter_empty_conv)
qed

lemma canonical_remap_value:
  assumes "canonical names_data m" and "i \<in> set (all_refs names_data)"
  shows "remap_value m (discovered m (all_refs names_data)) i = i"
proof -
  let ?found = "discovered m (all_refs names_data)"
  have found: "?found = map str_nat [1..<Suc (length m)]"
    using assms(1) by (rule canonical_found)
  have "i \<in> set ?found"
    using assms by (auto simp: set_discovered canonical_def map_of_eq_None_iff simp flip: set_map)
  then obtain k where k: "k < length ?found" and i: "i = ?found ! k"
    by (auto simp: in_set_conv_nth)
  have "position ?found i = k"
    unfolding i using k by (intro position_nth) simp_all
  moreover have "?found ! k = str_nat (Suc k)"
    using k unfolding found by (simp del: upt_Suc)
  moreover have "map_of m i \<noteq> None"
    using assms by (auto simp: canonical_def map_of_eq_None_iff simp flip: set_map)
  ultimately show ?thesis
    using i by (auto simp: remap_value_def)
qed

lemma canonical_run_names:
  assumes "canonical names_data m"
  shows "updated_names_data (renumber_run names_data m) = map normalize_author names_data"
proof -
  have "rewrite_author (remap_value m (discovered m (all_refs names_data))) a = normalize_author a"
    if "a \<in> set names_data" for a
  proof -
    have "set (original_ids (affils a)) \<subseteq> set (all_refs names_data)"
      using that by (auto simp: all_refs_def)
    then have eq: "map (remap_value m (discovered m (all_refs names_data))) (original_ids (affils a))
        = original_ids (affils a)"
      using canonical_remap_value [OF assms] by (intro map_idI) auto
    show ?thesis unfolding rewrite_author_def normalize_author_def eq by (rule refl)
  qed
  then show ?thesis by (simp add: renumber_run_names cong: map_cong)
qed

lemma canonical_run_affiliations:
  assumes "canonical names_data m"
  shows "new_affiliations_list (renumber_run names_data m)
    = map (\<lambda>k. (str_nat (Suc k), the (map_of m (str_nat (Suc k))))) [0..<length m]"
proof -
  have d: "distinct (map fst m)" using assms by (simp add: canonical_def)
  have found: "discovered m (all_refs names_data) = map str_nat [1..<Suc (length m)]"
    using assms by (rule canonical_found)
  have "new_affiliations_list (renumber_run names_data m) = affs_spec m (all_refs names_data)"
    by (simp add: renumber_run_eq [OF d] canonical_orphans [OF assms])
  also have "\<dots> = map (\<lambda>k. (str_nat (Suc k), the (map_of m (str_nat (Suc k))))) [0..<length m]"
    unfolding affs_spec_nth found by (rule nth_equalityI) (simp_all del: upt_Suc)
  finally show ?thesis .
qed

lemma references_normalize: "references (normalize_author a) = references a"
proof (cases "strip (affils a) = []")
  case True
  then show ?thesis by (simp add: normalize_author_def)
next
  case False
  have "original_ids (join '','' (original_ids (affils a))) = original_ids (affils a)"
    by (intro original_ids_join) (simp add: original_ids_tokens)
  with False show ?thesis by (simp add: normalize_author_def references_def)
qed

lemma normalize_normalize: "normalize_author (normalize_author a) = normalize_author a"
proof (cases "strip (affils a) = []")
  case True
  then show ?thesis by (simp add: normalize_author_def)
next
  case False
  have "original_ids (join '','' (original_ids (affils a))) = original_ids (affils a)"
    by (intro original_ids_join) (simp add: original_ids_tokens)
  with False show ?thesis by (simp add: normalize_author_def)
qed

lemma all_refs_normalize: "all_refs (map normalize_author names_data) = all_refs names_data"
  using references_normalize by (simp add: all_refs_def references_def comp_def)

lemma map_of_canonical_affiliations:
  assumes "k < n"
  shows "map_of (map (\<lambda>k. (str_nat (Suc k), f k)) [0..<n]) (str_nat (Suc k)) = Some (f k)"
proof -
  have "map_of (map (\<lambda>k. (str_nat (Suc k), f k)) ks) (str_nat (Suc k))
      = (if k \<in> set ks then Some (f k) else None)" for ks
    by (induction ks) auto
  with assms show ?thesis by simp
qed

lemma canonical_output:
  assumes "canonical names_data m"
  shows "canonical (updated_names_data (renumber_run names_data m))
    (new_affiliations_list (renumber_run names_data m))"
proof -
  let ?affs = "map (\<lambda>k. (str_nat (Suc k), the (map_of m (str_nat (Suc k))))) [0..<length m]"
  have keys: "map fst ?affs = map str_nat [1..<Suc (length m)]"
    using upt_from_one [of str_nat "length m"] by (simp add: comp_def del: upt_Suc)
  have "distinct (map fst ?affs)"
    unfolding keys by (intro distinct_map_str_nat distinct_upt)
  moreover have "set (map fst ?affs) = set (all_refs names_data)"
    unfolding keys using assms set_first_seen [of "all_refs names_data"]
    by (simp only: canonical_def)
  moreover have "first_seen (all_refs names_data) = map str_nat [1..<Suc (length ?affs)]"
    using assms by (simp add: canonical_def del: upt_Suc)
  ultimately show ?thesis
    unfolding canonical_run_names [OF assms] canonical_run_affiliations [OF assms]
      canonical_def all_refs_normalize
    by blast
qed

lemma canonical_example: "canonical canonical_names canonical_affiliations"
  by code_simp

lemma canonical_example_run:
  "renumber_affiliations canonical_names canonical_affiliations
     = (canonical_affiliations, canonical_names)"
  by code_simp

subsection \<open>Segmenter and parsers\<close>

lemma parse_data_loop_fields:
  "author_lines (parse_data_loop lines st) =
     author_lines st @
       (if found_split st then []
        else if title_skipped st then takeWhile (\<lambda>l. \<not> is_sentinel l) (nonblank_lines lines)
        else tl (takeWhile (\<lambda>l. \<not> is_sentinel l) (nonblank_lines lines)))
   \<and> affiliation_lines (parse_data_loop lines st) =
     affiliation_lines st @
       (if found_split st then filter (\<lambda>l. \<not> is_sentinel l) (nonblank_lines lines)
        else filter (\<lambda>l. \<not> is_sentinel l)
               (dropWhile (\<lambda>l. \<not> is_sentinel l) (nonblank_lines lines)))"
proof (induction lines arbitrary: st)
  case Nil
  then show ?case by (simp add: nonblank_lines_def)
next
  case (Cons line lines)
  show ?case
  proof (cases "strip line = []")
    case True
    then show ?thesis using Cons.IH [of st] by (simp add: nonblank_lines_def)
  next
    case False
    note nonblank = this
    show ?thesis
    proof (cases "is_sentinel (strip line)")
      case True
      then show ?thesis
        using nonblank Cons.IH [of "st\<lparr>found_split := True\<rparr>"]
        by (simp add: nonblank_lines_def is_sentinel_def Let_def)
    next
      case False
      then show ?thesis
        using nonblank Cons.IH [of "st\<lparr>title_skipped := True\<rparr>"]
          Cons.IH [of "st\<lparr>author_lines := author_lines st @ [strip line]\<rparr>"]
          Cons.IH [of "st\<lparr>affiliation_lines := affiliation_lines st @ [strip line]\<rparr>"]
        by (simp add: nonblank_lines_def is_sentinel_def Let_def)
    qed
  qed
qed

lemma example_segments:
  "segment_lines example_lines = ([''Jane A. Doe1,2'', ''John Smith2''], [''1 MIT'', ''2 Stanford''])"
  by code_simp

lemma parse_affiliations_loop_lookup:
  "map_of (parse_affiliations_loop lines d) k =
     (case filter (\<lambda>r. fst r = k) (List.map_filter match_affiliation (map strip lines)) of
        [] \<Rightarrow> map_of d k
      | r # rs \<Rightarrow> Some (snd (last (r # rs))))"
proof (induction lines arbitrary: d)
  case Nil
  then show ?case by (simp add: List.map_filter_simps)
next
  case (Cons line lines)
  show ?case
  proof (cases "match_affiliation (strip line)")
    case None
    then show ?thesis using Cons.IH [of d] by (simp add: List.map_filter_simps)
  next
    case (Some r)
    obtain i t where r: "r = (i, t)" by (cases r)
    show ?thesis
      using Some Cons.IH [of "AList.update i t d"]
      by (auto simp: List.map_filter_simps r update_conv' split: list.splits)
  qed
qed

lemma parse_affiliations_loop_keys:
  "set (map fst (parse_affiliations_loop lines d)) =
     set (map fst d) \<union> set (map fst (List.map_filter match_affiliation (map strip lines)))"
proof (induction lines arbitrary: d)
  case Nil
  then show ?case by (simp add: List.map_filter_simps)
next
  case (Cons line lines)
  show ?case
  proof (cases "match_affiliation (strip line)")
    case None
    then show ?thesis using Cons.IH [of d] by (simp add: List.map_filter_simps)
  next
    case (Some r)
    obtain i t where r: "r = (i, t)" by (cases r)
    show ?thesis
      using Some Cons.IH [of "AList.update i t d"]
      by (auto simp: List.map_filter_simps r dom_update)
  qed
qed

lemma match_affiliation_None: "match_affiliation line = None \<longleftrightarrow> line = [] \<or> \<not> is_digit (hd line)"
  by (cases line) (auto simp: match_affiliation_def)

lemma authors_loop_records:
  "list_all2
     (\<lambda>seg r. affiliations r = strip_chars '','' (strip (snd seg))
        \<and> (1 < length (split_ws (trimmed_name (fst seg))) \<longrightarrow>
             last_name r = last (split_ws (trimmed_name (fst seg)))
             \<and> first_middle r = join '' '' (butlast (split_ws (trimmed_name (fst seg)))))
        \<and> (split_ws (trimmed_name (fst seg)) = [trimmed_name (fst seg)] \<longrightarrow>
             last_name r = trimmed_name (fst seg) \<and> first_middle r = []))
     (filter (\<lambda>seg. trimmed_name (fst seg) \<noteq> []) matches) (authors_loop matches)"
proof (induction matches)
  case Nil
  then show ?case by simp
next
  case (Cons seg matches)
  obtain group1 group2 where seg: "seg = (group1, group2)" by (cases seg)
  show ?case
    using Cons.IH by (simp add: seg Let_def trimmed_name_def)
qed

lemma wrapped_segments:
  "finditer_authors (flatten (join [newline] [''Jane A.'', ''Doe1,2, Cher3'']))
     = [(''Jane A. Doe'', ''1,2,''), ('' Cher'', ''3'')]"
  by code_simp

subsection \<open>Sorting with mixed keys\<close>

lemma key_less_same_kind: "key_less a b = Inr r \<Longrightarrow> is_int_key a = is_int_key b"
  by (cases a; cases b) (simp_all add: is_int_key_def)

lemma insert_by_key_kind:
  "insert_by_key x ys = Inr zs \<Longrightarrow> ys \<noteq> [] \<Longrightarrow> \<forall>y \<in> set ys. is_int_key (fst y) = b \<Longrightarrow>
   is_int_key (fst x) = b \<and> (\<forall>z \<in> set zs. is_int_key (fst z) = b) \<and> zs \<noteq> []"
proof (induction ys arbitrary: zs)
  case Nil
  then show ?case by simp
next
  case (Cons y ys)
  from Cons.prems(1) obtain r where r: "key_less (fst x) (fst y) = Inr r"
    by (cases "key_less (fst x) (fst y)") simp_all
  then have x: "is_int_key (fst x) = b"
    using Cons.prems(3) by (simp add: key_less_same_kind)
  show ?case
  proof (cases r)
    case True
    with r Cons.prems(1) have "zs = x # y # ys" by simp
    with Cons.prems(3) x show ?thesis by simp
  next
    case False
    with r Cons.prems(1) obtain zs' where zs': "insert_by_key x ys = Inr zs'" and zs: "zs = y # zs'"
      by (cases "insert_by_key x ys") auto
    show ?thesis
    proof (cases "ys = []")
      case True
      with zs' zs Cons.prems x show ?thesis by auto
    next
      case False
      with Cons.IH [OF zs'] Cons.prems(3) zs x show ?thesis by auto
    qed
  qed
qed

lemma sort_by_key_kind:
  "sort_by_key xs placed = Inr s \<Longrightarrow> placed \<noteq> [] \<Longrightarrow>
   \<forall>y \<in> set placed. is_int_key (fst y) = b \<Longrightarrow> \<forall>x \<in> set xs. is_int_key (fst x) = b"
proof (induction xs arbitrary: placed)
  case Nil
  then show ?case by simp
next
  case (Cons x xs)
  from Cons.prems(1) obtain placed' where p: "insert_by_key x placed = Inr placed'"
    and rest: "sort_by_key xs placed' = Inr s"
    by (cases "insert_by_key x placed") auto
  from insert_by_key_kind [OF p Cons.prems(2,3)]
  have "is_int_key (fst x) = b" and "\<forall>z \<in> set placed'. is_int_key (fst z) = b" and "placed' \<noteq> []"
    by simp_all
  with Cons.IH [OF rest] show ?case by simp
qed

lemma sort_by_key_same_kind:
  assumes "sort_by_key ks [] = Inr s" and "p \<in> set ks" and "q \<in> set ks"
  shows "is_int_key (fst p) = is_int_key (fst q)"
proof (cases ks)
  case Nil
  with assms show ?thesis by simp
next
  case (Cons k ks')
  with assms(1) have "sort_by_key ks' [k] = Inr s" by simp
  then have "\<forall>x \<in> set ks'. is_int_key (fst x) = is_int_key (fst k)"
    by (rule sort_by_key_kind) simp_all
  with assms(2,3) Cons show ?thesis by auto
qed

lemma compute_keys_mem:
  "compute_keys xs = Inr ks \<Longrightarrow> x \<in> set xs \<Longrightarrow> sort_key_of x = Inr k \<Longrightarrow> (k, x) \<in> set ks"
proof (induction xs arbitrary: ks)
  case Nil
  then show ?case by simp
next
  case (Cons y ys)
  then show ?case
    by (auto split: sum.splits)
qed

section \<open>The claims\<close>

subsection \<open>C1\<close>

text \<open>
  Claim C1. Authors are processed in list order and each author's references in their
  order. With \<open>found\<close> the distinct referenced ids that are keys of the mapping, in order
  of first appearance, and \<open>K\<close> their number: the RemapTable sends them to \<open>1, ..., K\<close> in
  that order, each id counted once whatever the number of authors that reference it; the
  first \<open>K\<close> entries of the output affiliation list carry the new ids \<open>1, ..., K\<close> and the
  texts the mapping has for the ids of \<open>found\<close>, in the same order; every referenced id has
  a RemapTable value; and the output author list is the input list, in its order, each
  author with a non-blank reference string carrying the RemapTable values of its
  references, in their order and number, joined by commas.
\<close>

theorem C1_first_appearance_numbering:
  "let st = renumber_run names_data m;
       found = discovered m (all_refs names_data)
   in map (map_of (old_to_new_id_map st)) found
        = map (\<lambda>n. Some (str_nat n)) [1..<Suc (length found)]
    \<and> map fst (take (length found) (new_affiliations_list st))
        = map str_nat [1..<Suc (length found)]
    \<and> map (\<lambda>p. Some (snd p)) (take (length found) (new_affiliations_list st))
        = map (map_of m) found
    \<and> list_all (\<lambda>i. map_of (old_to_new_id_map st) i \<noteq> None) (all_refs names_data)
    \<and> updated_names_data st =
        map (\<lambda>a. if strip (affils a) = [] then a
                  else a\<lparr>affils := join '','' (map (\<lambda>i. the (map_of (old_to_new_id_map st) i))
                                               (original_ids (affils a)))\<rparr>) names_data"
proof -
  let ?st = "renumber_run names_data m"
  let ?refs = "all_refs names_data"
  let ?found = "discovered m ?refs"
  have a: "map (map_of (old_to_new_id_map ?st)) ?found
      = map (\<lambda>n. Some (str_nat n)) [1..<Suc (length ?found)]"
    using upt_from_one [of "\<lambda>n. Some (str_nat n)" "length ?found"]
    by (simp only: remap_of_found)
  have b: "map fst (take (length ?found) (new_affiliations_list ?st))
      = map str_nat [1..<Suc (length ?found)]"
    by (simp only: take_found_affs map_fst_affs_spec)
  have c: "map (\<lambda>p. Some (snd p)) (take (length ?found) (new_affiliations_list ?st))
      = map (map_of m) ?found"
    by (simp only: take_found_affs map_snd_affs_spec)
  have d: "list_all (\<lambda>i. map_of (old_to_new_id_map ?st) i \<noteq> None) ?refs"
    by (simp add: list_all_iff renumber_run_lookup)
  have e: "updated_names_data ?st =
        map (\<lambda>a. if strip (affils a) = [] then a
                  else a\<lparr>affils := join '','' (map (\<lambda>i. the (map_of (old_to_new_id_map ?st) i))
                                               (original_ids (affils a)))\<rparr>) names_data"
  proof -
    have "rewrite_author (remap_value m ?found) a
        = (if strip (affils a) = [] then a
           else a\<lparr>affils := join '','' (map (\<lambda>i. the (map_of (old_to_new_id_map ?st) i))
                                               (original_ids (affils a)))\<rparr>)"
      if "a \<in> set names_data" for a
    proof -
      have "set (original_ids (affils a)) \<subseteq> set ?refs"
        using that by (auto simp: all_refs_def)
      then have eq: "map (remap_value m ?found) (original_ids (affils a))
          = map (\<lambda>i. the (map_of (old_to_new_id_map ?st) i)) (original_ids (affils a))"
        by (intro map_cong) (auto simp: renumber_run_lookup)
      show ?thesis unfolding rewrite_author_def eq by (rule refl)
    qed
    then show ?thesis by (simp add: renumber_run_names cong: map_cong)
  qed
  from a b c d e show ?thesis by (simp only: Let_def simp_thms)
qed

theorem C1_first_appearance_numbering_witness:
  "new_affiliations_list (renumber_run scenario_names scenario_affiliations)
     = [(''1'', ''MIT''), (''2'', ''Stanford'')]
   \<and> map affils (updated_names_data (renumber_run scenario_names scenario_affiliations))
     = [''1,2'', ''2'']"
  using C1_first_appearance_numbering [of scenario_names scenario_affiliations]
  by (simp add: scenario_run scenario_affils)

subsection \<open>C2\<close>

text \<open>
  Claim C2. On canonical input the engine changes no id: the output affiliation list maps
  each id to the text the input mapping gives it, every author keeps its references, and
  running the engine again on the output returns the output.
\<close>

theorem C2_idempotent_on_canonical:
  assumes "canonical names_data m"
  shows "let out = renumber_affiliations names_data m
         in map_of (fst out) = map_of m
          \<and> map references (snd out) = map references names_data
          \<and> renumber_affiliations (snd out) (fst out) = out"
proof -
  let ?affs = "map (\<lambda>k. (str_nat (Suc k), the (map_of m (str_nat (Suc k))))) [0..<length m]"
  let ?names = "map normalize_author names_data"
  have out: "renumber_affiliations names_data m = (?affs, ?names)"
    by (simp add: renumber_affiliations_def Let_def canonical_run_names [OF assms]
        canonical_run_affiliations [OF assms])
  have out_canonical: "canonical ?names ?affs"
    using canonical_output [OF assms]
    by (simp only: canonical_run_names [OF assms] canonical_run_affiliations [OF assms])
  have a: "map_of ?affs = map_of m"
  proof
    fix i
    show "map_of ?affs i = map_of m i"
    proof (cases "i \<in> fst ` set m")
      case True
      then have "i \<in> set (map str_nat [1..<Suc (length m)])"
        using assms set_first_seen [of "all_refs names_data"]
        by (simp add: canonical_def flip: set_map)
      then obtain x where "i = str_nat x" and "1 \<le> x" and "x < Suc (length m)"
        by (auto simp del: upt_Suc)
      then have "x - 1 < length m" and "i = str_nat (Suc (x - 1))"
        by simp_all
      then obtain k where k: "k < length m" and i: "i = str_nat (Suc k)"
        by blast
      from True have "map_of m i \<noteq> None"
        by (simp only: map_of_eq_None_iff not_not)
      then obtain t where t: "map_of m i = Some t"
        by blast
      with k show ?thesis
        by (simp add: i map_of_canonical_affiliations)
    next
      case False
      then have "map_of m i = None" by (simp add: map_of_eq_None_iff)
      moreover have "i \<notin> fst ` set ?affs"
        using False out_canonical assms by (simp add: canonical_def all_refs_normalize flip: set_map)
      then have "map_of ?affs i = None" unfolding map_of_eq_None_iff .
      ultimately show ?thesis by simp
    qed
  qed
  have b: "map references ?names = map references names_data"
    by (simp add: references_normalize)
  have "renumber_affiliations ?names ?affs
      = (map (\<lambda>k. (str_nat (Suc k), the (map_of ?affs (str_nat (Suc k))))) [0..<length ?affs],
         map normalize_author ?names)"
    by (simp add: renumber_affiliations_def Let_def canonical_run_names [OF out_canonical]
        canonical_run_affiliations [OF out_canonical])
  also have "map normalize_author ?names = ?names"
    by (simp add: normalize_normalize)
  also have "map (\<lambda>k. (str_nat (Suc k), the (map_of ?affs (str_nat (Suc k))))) [0..<length ?affs]
      = ?affs"
    by (rule nth_equalityI) (simp_all add: a)
  finally have c: "renumber_affiliations ?names ?affs = (?affs, ?names)" .
  from a b c show ?thesis
    by (simp add: out Let_def)
qed

theorem C2_idempotent_on_canonical_witness:
  "renumber_affiliations canonical_names canonical_affiliations
     = (canonical_affiliations, canonical_names)
   \<and> renumber_affiliations (snd (renumber_affiliations canonical_names canonical_affiliations))
        (fst (renumber_affiliations canonical_names canonical_affiliations))
     = renumber_affiliations canonical_names canonical_affiliations"
  using C2_idempotent_on_canonical [OF canonical_example]
  by (simp add: Let_def canonical_example_run)

subsection \<open>C3\<close>

text \<open>
  Claim C3, as the code has it. Let \<open>K\<close> be the number of distinct referenced ids that are
  keys of the mapping and \<open>M\<close> the number of orphans. The RemapTable sends those \<open>K\<close> ids, in
  order of first appearance, to \<open>1..K\<close>; the new ids of the output affiliation list are
  exactly \<open>1..K+M\<close>, in this order, and the entries after the first \<open>K\<close> carry the texts of
  the orphans. A referenced id that is not a key of the mapping takes no number.
\<close>

theorem C3_new_ids_sequential:
  assumes "distinct (map fst m)"
  shows "let refs = all_refs names_data; found = discovered m refs; orph = orphans m refs;
             st = renumber_run names_data m
         in length found = card (set refs \<inter> fst ` set m)
          \<and> map (map_of (old_to_new_id_map st)) found
              = map (\<lambda>n. Some (str_nat n)) [1..<Suc (length found)]
          \<and> map fst (new_affiliations_list st)
              = map str_nat [1..<Suc (length found + length orph)]
          \<and> map snd (drop (length found) (new_affiliations_list st)) = map snd orph"
proof -
  let ?refs = "all_refs names_data"
  let ?found = "discovered m ?refs"
  let ?st = "renumber_run names_data m"
  have a: "map (map_of (old_to_new_id_map ?st)) ?found
      = map (\<lambda>n. Some (str_nat n)) [1..<Suc (length ?found)]"
    using upt_from_one [of "\<lambda>n. Some (str_nat n)" "length ?found"]
    by (simp only: remap_of_found)
  have "length (affs_spec m ?refs) = length ?found"
    by (simp add: affs_spec_def)
  then have b: "map snd (drop (length ?found) (new_affiliations_list ?st))
      = map snd (orphans m ?refs)"
    using map_enumerate_snd [of snd "Suc (length ?found)" "orphans m ?refs"]
    by (simp add: renumber_run_eq [OF assms] comp_def case_prod_beta)
  from a b show ?thesis
    by (simp add: Let_def length_discovered [symmetric] renumber_run_ids [OF assms] del: upt_Suc)
qed

theorem C3_new_ids_sequential_witness:
  "map fst (new_affiliations_list (renumber_run gap_names gap_affiliations)) = map str_nat [1..<Suc 1]"
proof -
  have "distinct (map fst gap_affiliations)"
    by (simp add: gap_affiliations_def)
  from C3_new_ids_sequential [OF this, of gap_names]
  have "map fst (new_affiliations_list (renumber_run gap_names gap_affiliations))
      = map str_nat [1..<Suc (length (discovered gap_affiliations (all_refs gap_names))
          + length (orphans gap_affiliations (all_refs gap_names)))]"
    unfolding Let_def by (elim conjE)
  then show ?thesis by (simp add: gap_found gap_orphans del: upt_Suc)
qed

theorem C3_counterexample:
  "card (set (all_refs gap_names)) = 2
   \<and> str_nat 2 \<notin> set (map snd (old_to_new_id_map (renumber_run gap_names gap_affiliations)))
   \<and> str_nat 2 \<notin> set (map fst (new_affiliations_list (renumber_run gap_names gap_affiliations)))"
proof -
  have "str_nat 2 = ''2''" by code_simp
  then show ?thesis by (simp add: gap_run gap_refs)
qed

subsection \<open>C4\<close>

text \<open>
  Claim C4. When the id in hand is neither in the RemapTable nor a key of the mapping,
  the round prints the warning line, whose text holds the last name of the author and the
  missing id; it stores the id under itself in the RemapTable, hands the id itself to the
  author, and changes nothing else: the output affiliation list and the counter stay as
  they are. The run goes on to its end: in its final state the id is still mapped to
  itself, and the printed lines hold the warning for this id that names the first author
  of the list who references it.
\<close>

theorem C4_missing_affiliation_fallback:
  "(map_of (old_to_new_id_map st) oid = None \<and> map_of m oid = None \<longrightarrow>
      process_id m a oid (st, new_ids) =
        (st\<lparr>printed := printed st @
              [''Warning: Author '' @ last' a @ '' references affiliation ID '' @ [CHR 0x27]
                 @ oid @ [CHR 0x27]
                 @ '', which is not in the affiliations file. Keeping original ID.''],
            old_to_new_id_map := old_to_new_id_map st @ [(oid, oid)]\<rparr>, new_ids @ [oid]))
   \<and> (a \<in> set names_data \<and> oid \<in> set (original_ids (affils a)) \<and> map_of m oid = None \<longrightarrow>
      map_of (old_to_new_id_map (renumber_run names_data m)) oid = Some oid
      \<and> (\<exists>before b after. names_data = before @ b # after
            \<and> oid \<notin> set (all_refs before) \<and> oid \<in> set (original_ids (affils b))
            \<and> ''Warning: Author '' @ last' b @ '' references affiliation ID '' @ [CHR 0x27]
                 @ oid @ [CHR 0x27]
                 @ '', which is not in the affiliations file. Keeping original ID.''
               \<in> set (printed (renumber_run names_data m))))"
proof (intro conjI impI)
  assume "map_of (old_to_new_id_map st) oid = None \<and> map_of m oid = None"
  then show "process_id m a oid (st, new_ids) =
        (st\<lparr>printed := printed st @
              [''Warning: Author '' @ last' a @ '' references affiliation ID '' @ [CHR 0x27]
                 @ oid @ [CHR 0x27]
                 @ '', which is not in the affiliations file. Keeping original ID.''],
            old_to_new_id_map := old_to_new_id_map st @ [(oid, oid)]\<rparr>, new_ids @ [oid])"
    by (simp add: process_id_def update_fresh warning_def)
next
  assume h: "a \<in> set names_data \<and> oid \<in> set (original_ids (affils a)) \<and> map_of m oid = None"
  then have mem: "oid \<in> set (all_refs names_data)"
    by (auto simp: all_refs_def)
  with h show "map_of (old_to_new_id_map (renumber_run names_data m)) oid = Some oid"
    by (simp add: renumber_run_lookup remap_value_def)
  from first_gap_warning [OF mem, of m "[]"] h
  obtain before b after where "names_data = before @ b # after"
    and "oid \<notin> set (all_refs before)" and "oid \<in> set (original_ids (affils b))"
    and "warning b oid \<in> set (printed (renumber_run names_data m))"
    by (auto simp: renumber_run_printed)
  then show "\<exists>before b after. names_data = before @ b # after
            \<and> oid \<notin> set (all_refs before) \<and> oid \<in> set (original_ids (affils b))
            \<and> ''Warning: Author '' @ last' b @ '' references affiliation ID '' @ [CHR 0x27]
                 @ oid @ [CHR 0x27]
                 @ '', which is not in the affiliations file. Keeping original ID.''
               \<in> set (printed (renumber_run names_data m))"
    unfolding warning_def by blast
qed

theorem C4_missing_affiliation_fallback_witness:
  "process_id gap_affiliations (hd gap_names) ''7'' (initial_state, []) =
     (initial_state\<lparr>printed :=
         [''Warning: Author Doe references affiliation ID '' @ [CHR 0x27] @ ''7'' @ [CHR 0x27]
            @ '', which is not in the affiliations file. Keeping original ID.''],
        old_to_new_id_map := [(''7'', ''7'')]\<rparr>, [''7''])
   \<and> map_of (old_to_new_id_map (renumber_run gap_names gap_affiliations)) ''7'' = Some ''7''
   \<and> printed (renumber_run gap_names gap_affiliations) =
       [''Warning: Author Doe references affiliation ID '' @ [CHR 0x27] @ ''7'' @ [CHR 0x27]
          @ '', which is not in the affiliations file. Keeping original ID.'']"
proof -
  have "map_of (old_to_new_id_map initial_state) ''7'' = None \<and> map_of gap_affiliations ''7'' = None"
    by (simp add: initial_state_def gap_affiliations_def)
  with C4_missing_affiliation_fallback [of initial_state "''7''" gap_affiliations "hd gap_names" "[]"
      gap_names]
  have "process_id gap_affiliations (hd gap_names) ''7'' (initial_state, []) =
     (initial_state\<lparr>printed := printed initial_state @
         [''Warning: Author '' @ last' (hd gap_names) @ '' references affiliation ID '' @ [CHR 0x27]
            @ ''7'' @ [CHR 0x27]
            @ '', which is not in the affiliations file. Keeping original ID.''],
        old_to_new_id_map := old_to_new_id_map initial_state @ [(''7'', ''7'')]\<rparr>, [] @ [''7''])"
    by blast
  moreover have "last' (hd gap_names) = ''Doe''"
    by (simp add: gap_names_def)
  ultimately show ?thesis
    by (simp add: gap_run gap_warning_line initial_state_def)
qed

subsection \<open>C5\<close>

text \<open>
  Claim C5, as the code has it. After the authors, the affiliations of the mapping that no
  author references are appended to the output list, after the \<open>K\<close> referenced ones, with
  the next sequential ids \<open>K+1, K+2, ...\<close>, in the order in which the mapping holds them
  (the insertion order of the dictionary); the pass does not sort.
\<close>

theorem C5_orphans_appended:
  assumes "distinct (map fst m)"
  shows "let refs = all_refs names_data; found = discovered m refs;
             out = fst (renumber_affiliations names_data m)
         in map (\<lambda>p. Some (snd p)) (take (length found) out) = map (map_of m) found
          \<and> drop (length found) out
              = map (\<lambda>(n, p). (str_nat n, snd p))
                  (enumerate (Suc (length found)) (filter (\<lambda>p. fst p \<notin> set refs) m))"
proof -
  let ?refs = "all_refs names_data"
  have len: "length (affs_spec m ?refs) = length (discovered m ?refs)"
    by (simp add: affs_spec_def)
  have out: "fst (renumber_affiliations names_data m) = new_affiliations_list (renumber_run names_data m)"
    by (simp add: renumber_affiliations_def Let_def)
  have a: "map (\<lambda>p. Some (snd p)) (take (length (discovered m ?refs)) (fst (renumber_affiliations names_data m)))
      = map (map_of m) (discovered m ?refs)"
    by (simp only: out take_found_affs map_snd_affs_spec)
  have b: "drop (length (discovered m ?refs)) (fst (renumber_affiliations names_data m))
      = map (\<lambda>(n, p). (str_nat n, snd p))
          (enumerate (Suc (length (discovered m ?refs))) (filter (\<lambda>p. fst p \<notin> set ?refs) m))"
    using len by (simp add: out renumber_run_eq [OF assms] orphans_def)
  from a b show ?thesis by (simp only: Let_def simp_thms)
qed

theorem C5_orphans_appended_witness:
  "drop 2 (fst (renumber_affiliations scenario_names orphan_affiliations)) = [(''3'', ''Unused U.'')]"
proof -
  have "distinct (map fst orphan_affiliations)"
    by (simp add: orphan_affiliations_def)
  from C5_orphans_appended [OF this, of scenario_names]
  have "drop 2 (fst (renumber_affiliations scenario_names orphan_affiliations))
      = map (\<lambda>(n, p). (str_nat n, snd p))
          (enumerate 3 (filter (\<lambda>p. fst p \<notin> set [''1'', ''2'', ''2'']) orphan_affiliations))"
    by (simp add: Let_def orphan_scenario_refs orphan_scenario_found eval_nat_numeral)
  also have "\<dots> = [(''3'', ''Unused U.'')]"
    by code_simp
  finally show ?thesis .
qed

theorem C5_counterexample:
  "fst (renumber_affiliations [] unsorted_affiliations) = [(''1'', ''B''), (''2'', ''A'')]
   \<and> fst (renumber_affiliations [] unsorted_affiliations)
       \<noteq> map (\<lambda>(n, p). (str_nat n, snd p))
           (enumerate 1 (sort_key (\<lambda>p. nat_of_digits (fst p)) unsorted_affiliations))"
proof -
  have "fst (renumber_affiliations [] unsorted_affiliations) = [(''1'', ''B''), (''2'', ''A'')]"
    by code_simp
  moreover have "map (\<lambda>(n, p). (str_nat n, snd p))
      (enumerate 1 (sort_key (\<lambda>p. nat_of_digits (fst p)) unsorted_affiliations))
      = [(''1'', ''A''), (''2'', ''B'')]"
    by code_simp
  ultimately show ?thesis by simp
qed

subsection \<open>C6\<close>

text \<open>
  Claim C6, as the code has it. The lines are flattened into one stream and scanned for
  name+digit-run segments. A segment whose name is empty once trimmed (of whitespace, then
  of leading commas and spaces) gives no record; the other segments give one record each,
  in order of appearance. The record's references are the digit run without commas at its
  ends. When the trimmed name has more than one whitespace-separated token, the last
  token is the last name and the tokens before it, joined by single spaces, are the first
  and middle names; when the trimmed name is itself its only token, it is the last name
  and the other field is empty. The six lines of the scenario give the two records of Doe
  and Smith.
\<close>

theorem C6_author_parser:
  "list_all2
     (\<lambda>seg r. affiliations r = strip_chars '','' (strip (snd seg))
        \<and> (1 < length (split_ws (trimmed_name (fst seg))) \<longrightarrow>
             last_name r = last (split_ws (trimmed_name (fst seg)))
             \<and> first_middle r = join '' '' (butlast (split_ws (trimmed_name (fst seg)))))
        \<and> (split_ws (trimmed_name (fst seg)) = [trimmed_name (fst seg)] \<longrightarrow>
             last_name r = trimmed_name (fst seg) \<and> first_middle r = []))
     (filter (\<lambda>seg. trimmed_name (fst seg) \<noteq> []) (finditer_authors (flatten text)))
     (parse_authors_to_list text)
   \<and> parse_authors_to_list (fst (parse_data example_text)) =
       [\<lparr>first_middle = ''Jane A.'', last_name = ''Doe'', affiliations = ''1,2''\<rparr>,
        \<lparr>first_middle = ''John'', last_name = ''Smith'', affiliations = ''2''\<rparr>]"
proof -
  have "parse_authors_to_list (fst (parse_data example_text)) =
       [\<lparr>first_middle = ''Jane A.'', last_name = ''Doe'', affiliations = ''1,2''\<rparr>,
        \<lparr>first_middle = ''John'', last_name = ''Smith'', affiliations = ''2''\<rparr>]"
    by code_simp
  moreover have "parse_authors_to_list text = authors_loop (finditer_authors (flatten text))"
    by (simp add: parse_authors_to_list_def flatten_def)
  ultimately show ?thesis
    using authors_loop_records [of "finditer_authors (flatten text)"] by simp
qed

theorem C6_author_parser_witness:
  "length (parse_authors_to_list (join [newline] [''Jane A.'', ''Doe1,2, Cher3''])) = 2
   \<and> parse_authors_to_list (join [newline] [''Jane A.'', ''Doe1,2, Cher3'']) =
       [\<lparr>first_middle = ''Jane A.'', last_name = ''Doe'', affiliations = ''1,2''\<rparr>,
        \<lparr>first_middle = [], last_name = ''Cher'', affiliations = ''3''\<rparr>]"
proof -
  have names: "trimmed_name ''Jane A. Doe'' \<noteq> []" "trimmed_name '' Cher'' \<noteq> []"
    by code_simp+
  from C6_author_parser [of "join [newline] [''Jane A.'', ''Doe1,2, Cher3'']"]
  have "length (parse_authors_to_list (join [newline] [''Jane A.'', ''Doe1,2, Cher3''])) = 2"
    unfolding wrapped_segments by (auto simp: names dest: list_all2_lengthD)
  moreover have "parse_authors_to_list (join [newline] [''Jane A.'', ''Doe1,2, Cher3'']) =
       [\<lparr>first_middle = ''Jane A.'', last_name = ''Doe'', affiliations = ''1,2''\<rparr>,
        \<lparr>first_middle = [], last_name = ''Cher'', affiliations = ''3''\<rparr>]"
    by code_simp
  ultimately show ?thesis by simp
qed

theorem C6_counterexample:
  "finditer_authors (flatten ''Jane Doe1 , 2'') = [(''Jane Doe'', ''1''), ('' , '', ''2'')]
   \<and> parse_authors_to_list ''Jane Doe1 , 2''
       = [\<lparr>first_middle = ''Jane'', last_name = ''Doe'', affiliations = ''1''\<rparr>]"
  by code_simp

subsection \<open>C7\<close>

text \<open>
  Claim C7. Let \<open>ls\<close> be the stripped non-blank lines. Every line that is the sentinel (it
  equals \<open>affiliations\<close> once lower-cased) is discarded. The author block is made of the
  lines before the first sentinel without the first of them, the title; the affiliation
  block is made of the lines after the first sentinel. So a sentinel that comes first is
  not taken as the title: the author block is empty and the lines after it are
  affiliation lines. Without a sentinel the author block is all of \<open>ls\<close> but the title and
  the affiliation block is empty. \<open>parse_data\<close> splits the text at the newlines and joins
  each of the two blocks with newlines.
\<close>

theorem C7_segmenter:
  "(let ls = nonblank_lines lines;
        before = takeWhile (\<lambda>l. \<not> is_sentinel l) ls;
        after = dropWhile (\<lambda>l. \<not> is_sentinel l) ls
    in segment_lines lines = (tl before, filter (\<lambda>l. \<not> is_sentinel l) after)
     \<and> (ls \<noteq> [] \<and> is_sentinel (hd ls) \<longrightarrow>
          segment_lines lines = ([], filter (\<lambda>l. \<not> is_sentinel l) (tl ls)))
     \<and> ((\<forall>l \<in> set ls. \<not> is_sentinel l) \<longrightarrow> segment_lines lines = (tl ls, [])))
   \<and> parse_data full_text
       = (join [newline] (fst (segment_lines (split_on newline full_text))),
          join [newline] (snd (segment_lines (split_on newline full_text))))"
proof -
  let ?ls = "nonblank_lines lines"
  have main: "segment_lines lines =
      (tl (takeWhile (\<lambda>l. \<not> is_sentinel l) ?ls),
       filter (\<lambda>l. \<not> is_sentinel l) (dropWhile (\<lambda>l. \<not> is_sentinel l) ?ls))"
    using parse_data_loop_fields [of lines
        "\<lparr>author_lines = [], affiliation_lines = [], found_split = False, title_skipped = False\<rparr>"]
    by (simp add: segment_lines_def Let_def)
  have first: "segment_lines lines = ([], filter (\<lambda>l. \<not> is_sentinel l) (tl ?ls))"
    if "?ls \<noteq> [] \<and> is_sentinel (hd ?ls)"
  proof -
    from that obtain l rest where ls: "?ls = l # rest" and "is_sentinel l"
      by (cases ?ls) auto
    then show ?thesis by (simp add: main)
  qed
  have none: "segment_lines lines = (tl ?ls, [])" if "\<forall>l \<in> set ?ls. \<not> is_sentinel l"
  proof -
    from that have "takeWhile (\<lambda>l. \<not> is_sentinel l) ?ls = ?ls"
      and "dropWhile (\<lambda>l. \<not> is_sentinel l) ?ls = []"
      by (simp_all add: takeWhile_eq_all_conv)
    then show ?thesis by (simp only: main filter.simps)
  qed
  from main first none show ?thesis
    by (simp add: Let_def parse_data_def)
qed

theorem C7_segmenter_witness:
  "segment_lines example_lines = ([''Jane A. Doe1,2'', ''John Smith2''], [''1 MIT'', ''2 Stanford''])
   \<and> segment_lines [''Affiliations'', ''1 MIT'', '''', ''AFFILIATIONS '', ''2 Stanford'']
       = ([], [''1 MIT'', ''2 Stanford''])
   \<and> segment_lines [''My Title'', '''', ''Jane Doe1''] = ([''Jane Doe1''], [])"
proof -
  have a: "nonblank_lines [''Affiliations'', ''1 MIT'', '''', ''AFFILIATIONS '', ''2 Stanford'']
      = [''Affiliations'', ''1 MIT'', ''AFFILIATIONS'', ''2 Stanford'']"
    by code_simp
  have s: "is_sentinel ''Affiliations''" "is_sentinel ''AFFILIATIONS''" "\<not> is_sentinel ''1 MIT''"
    "\<not> is_sentinel ''2 Stanford''" "\<not> is_sentinel ''My Title''" "\<not> is_sentinel ''Jane Doe1''"
    by code_simp+
  have b: "nonblank_lines [''My Title'', '''', ''Jane Doe1''] = [''My Title'', ''Jane Doe1'']"
    by code_simp
  from C7_segmenter [of "[''Affiliations'', ''1 MIT'', '''', ''AFFILIATIONS '', ''2 Stanford'']"]
  have first: "segment_lines [''Affiliations'', ''1 MIT'', '''', ''AFFILIATIONS '', ''2 Stanford'']
       = ([], [''1 MIT'', ''2 Stanford''])"
    unfolding Let_def a by (simp add: s)
  from C7_segmenter [of "[''My Title'', '''', ''Jane Doe1'']"]
  have none: "segment_lines [''My Title'', '''', ''Jane Doe1''] = ([''Jane Doe1''], [])"
    unfolding Let_def b by (simp add: s)
  from example_segments first none show ?thesis by simp
qed

subsection \<open>C8\<close>

text \<open>
  Claim C8. A line matches when, stripped, it starts with a decimal digit; its id is the
  run of digits at its start and its text is what follows the whitespace after them. A
  line that does not start with a digit matches nothing. The map holds, for every id, the
  text of the last matching line with that id, and has no other key: lines without a
  leading digit add nothing and the parser has no failing branch. \<open>1 Foo\<close> then \<open>1 Bar\<close>
  give the map with the single entry \<open>1: Bar\<close>.
\<close>

theorem C8_affiliation_parser:
  "(match_affiliation line = None \<longleftrightarrow> line = [] \<or> \<not> is_digit (hd line))
   \<and> (line \<noteq> [] \<and> is_digit (hd line) \<and> newline \<notin> set line \<longrightarrow>
        match_affiliation line
          = Some (takeWhile is_digit line, dropWhile is_space (dropWhile is_digit line)))
   \<and> map_of (parse_affiliations_to_dict text) k =
        (case filter (\<lambda>r. fst r = k) (affiliation_matches text) of
           [] \<Rightarrow> None
         | r # rs \<Rightarrow> Some (snd (last (r # rs))))
   \<and> set (map fst (parse_affiliations_to_dict text)) = set (map fst (affiliation_matches text))
   \<and> parse_affiliations_to_dict (join [newline] [''1 Foo'', ''1 Bar'']) = [(''1'', ''Bar'')]"
proof -
  have a: "match_affiliation line
      = Some (takeWhile is_digit line, dropWhile is_space (dropWhile is_digit line))"
    if "line \<noteq> [] \<and> is_digit (hd line) \<and> newline \<notin> set line"
  proof -
    have "set (dropWhile is_space (dropWhile is_digit line)) \<subseteq> set line"
      by (auto dest: set_dropWhileD)
    with that have "takeWhile (\<lambda>c. c \<noteq> newline) (dropWhile is_space (dropWhile is_digit line))
        = dropWhile is_space (dropWhile is_digit line)"
      unfolding takeWhile_eq_all_conv by blast
    moreover from that have "takeWhile is_digit line \<noteq> []"
      by (cases line) auto
    ultimately show ?thesis by (simp only: match_affiliation_def if_False)
  qed
  have b: "parse_affiliations_to_dict (join [newline] [''1 Foo'', ''1 Bar'']) = [(''1'', ''Bar'')]"
    by code_simp
  have c: "map_of (parse_affiliations_to_dict text) k =
        (case filter (\<lambda>r. fst r = k) (affiliation_matches text) of
           [] \<Rightarrow> None
         | r # rs \<Rightarrow> Some (snd (last (r # rs))))"
    unfolding parse_affiliations_to_dict_def affiliation_matches_def parse_affiliations_loop_lookup
    by (simp split: list.splits)
  have d: "set (map fst (parse_affiliations_to_dict text)) = set (map fst (affiliation_matches text))"
    unfolding parse_affiliations_to_dict_def affiliation_matches_def parse_affiliations_loop_keys
    by simp
  from a b c d match_affiliation_None [of line] show ?thesis
    by blast
qed

theorem C8_affiliation_parser_witness:
  "match_affiliation ''22Baz  q'' = Some (''22'', ''Baz  q'')
   \<and> match_affiliation ''x 1'' = None
   \<and> map_of (parse_affiliations_to_dict (join [newline] [''1 Foo'', ''x'', ''1 Bar''])) ''1''
       = Some ''Bar''"
proof -
  have eval: "takeWhile is_digit ''22Baz  q'' = ''22''"
    "dropWhile is_space (dropWhile is_digit ''22Baz  q'') = ''Baz  q''"
    by code_simp+
  have pre: "''22Baz  q'' \<noteq> [] \<and> is_digit (hd ''22Baz  q'') \<and> newline \<notin> set ''22Baz  q''"
    by code_simp
  have no: "''x 1'' = [] \<or> \<not> is_digit (hd ''x 1'')"
    by code_simp
  have matches: "affiliation_matches (join [newline] [''1 Foo'', ''x'', ''1 Bar''])
      = [(''1'', ''Foo''), (''1'', ''Bar'')]"
    by code_simp
  from C8_affiliation_parser [of "''22Baz  q''"] pre
  have "match_affiliation ''22Baz  q''
      = Some (takeWhile is_digit ''22Baz  q'', dropWhile is_space (dropWhile is_digit ''22Baz  q''))"
    by blast
  then have a: "match_affiliation ''22Baz  q'' = Some (''22'', ''Baz  q'')"
    by (simp only: eval)
  from C8_affiliation_parser [of "''x 1''"] no have b: "match_affiliation ''x 1'' = None"
    by blast
  from C8_affiliation_parser [of _ "join [newline] [''1 Foo'', ''x'', ''1 Bar'']" "''1''"]
  have "map_of (parse_affiliations_to_dict (join [newline] [''1 Foo'', ''x'', ''1 Bar''])) ''1''
       = (case filter (\<lambda>r. fst r = ''1'')
            (affiliation_matches (join [newline] [''1 Foo'', ''x'', ''1 Bar''])) of
           [] \<Rightarrow> None
         | r # rs \<Rightarrow> Some (snd (last (r # rs))))"
    by blast
  then have c: "map_of (parse_affiliations_to_dict (join [newline] [''1 Foo'', ''x'', ''1 Bar''])) ''1''
       = Some ''Bar''"
    unfolding matches by simp
  from a b c show ?thesis by simp
qed

subsection \<open>C9\<close>

text \<open>
  Claim C9 fails on the code. An id made of decimal digits has an \<open>int\<close> as its sort key
  and an id that is not numeric has itself, a \<open>str\<close>; a mapping that holds one of each
  makes the sort compare an \<open>int\<close> with a \<open>str\<close>, and the sorting step raises instead of
  falling back to the lexical order.
\<close>

theorem C9_mixed_ids_raise:
  assumes "i \<in> set (map fst affiliations_map)" and "j \<in> set (map fst affiliations_map)"
    and "sort_key_of i = Inr (IntKey n)" and "sort_key_of j = Inr (StrKey x)"
  shows "\<exists>e. sorted_ids affiliations_map = Inl e"
proof (cases "compute_keys (map fst affiliations_map)")
  case (Inl e)
  then show ?thesis by (simp add: sorted_ids_def)
next
  case (Inr ks)
  then have "(IntKey n, i) \<in> set ks" and "(StrKey x, j) \<in> set ks"
    using assms by (blast intro: compute_keys_mem)+
  then have "\<not> (\<exists>s. sort_by_key ks [] = Inr s)"
    by (auto dest: sort_by_key_same_kind simp: is_int_key_def)
  then obtain e where "sort_by_key ks [] = Inl e"
    by (cases "sort_by_key ks []") auto
  with Inr show ?thesis by (simp add: sorted_ids_def)
qed

theorem C9_mixed_ids_raise_witness:
  "sort_key_of ''1'' = Inr (IntKey 1) \<and> sort_key_of ''x'' = Inr (StrKey ''x'')
   \<and> sorted_ids mixed_affiliations = Inl TypeError"
proof -
  have keys: "sort_key_of ''1'' = Inr (IntKey 1)" "sort_key_of ''x'' = Inr (StrKey ''x'')"
    by code_simp+
  have "''1'' \<in> set (map fst mixed_affiliations)" "''x'' \<in> set (map fst mixed_affiliations)"
    by (simp_all add: mixed_affiliations_def)
  from C9_mixed_ids_raise [OF this keys] obtain e where "sorted_ids mixed_affiliations = Inl e"
    by blast
  moreover have "sorted_ids mixed_affiliations = Inl TypeError"
    by code_simp
  ultimately show ?thesis using keys by simp
qed

subsection \<open>C10\<close>

text \<open>
  Claim C10. When every affiliation id referenced by an author is a key of the affiliation
  mapping, the RemapTable is injective: two distinct original ids never have the same
  new id.
\<close>

theorem C10_remap_injective:
  assumes "distinct (map fst m)" and "set (all_refs names_data) \<subseteq> fst ` set m"
    and "i \<noteq> j"
    and "map_of (old_to_new_id_map (renumber_run names_data m)) i = Some v"
  shows "map_of (old_to_new_id_map (renumber_run names_data m)) j \<noteq> Some v"
proof
  let ?r = "old_to_new_id_map (renumber_run names_data m)"
  assume j: "map_of ?r j = Some v"
  have "distinct (map snd ?r)"
    by (simp only: renumber_run_values [OF assms(1,2)] distinct_map_str_nat distinct_upt)
  then have "inj_on snd (set ?r)"
    by (simp add: distinct_map)
  moreover have "(i, v) \<in> set ?r" and "(j, v) \<in> set ?r"
    using assms(4) j by (auto dest: map_of_SomeD)
  ultimately have "(i, v) = (j, v)"
    by (intro inj_onD [of snd "set ?r"]) simp_all
  with assms(3) show False by simp
qed

theorem C10_remap_injective_witness:
  "map_of (old_to_new_id_map (renumber_run scenario_names scenario_affiliations)) ''1'' = Some ''1''
   \<and> map_of (old_to_new_id_map (renumber_run scenario_names scenario_affiliations)) ''2'' \<noteq> Some ''1''"
proof -
  have "distinct (map fst scenario_affiliations)"
    by (simp add: scenario_keys)
  moreover have "set (all_refs scenario_names) \<subseteq> fst ` set scenario_affiliations"
    using scenario_keys by (simp add: scenario_refs flip: set_map)
  moreover have "''1'' \<noteq> ''2''" by simp
  moreover have one: "map_of (old_to_new_id_map (renumber_run scenario_names scenario_affiliations))
      ''1'' = Some ''1''"
    by (simp add: scenario_run)
  ultimately have "map_of (old_to_new_id_map (renumber_run scenario_names scenario_affiliations))
      ''2'' \<noteq> Some ''1''"
    by (rule C10_remap_injective)
  with one show ?thesis by simp
qed

text \<open>
  Without that precondition the identity fallback can collide with a sequential id: with
  the references \<open>1,5\<close> and the single affiliation 5, the missing id 1 keeps the id 1 and
  the affiliation 5 is numbered 1 too.
\<close>

lemma identity_fallback_collision:
  "old_to_new_id_map (renumber_run [\<lparr>last' = ''Doe'', first = ''Jane'', affils = ''1,5''\<rparr>]
     [(''5'', ''MIT'')]) = [(''1'', ''1''), (''5'', ''1'')]"
  by code_simp

end
